theory Spec2Isabelle
  imports Main
begin

section \<open>The endpoint watcher of kube-vip (pkg/manager/watch\_endpoints.go)\<close>

subsection \<open>Endpoint snapshots and the local-address scan\<close>

text \<open>
  The fields of \<^verbatim>\<open>v1.Endpoints\<close> that \<^verbatim>\<open>watchEndpoint\<close> reads: the subsets, their
  addresses, and for each address its IP and its \<^verbatim>\<open>NodeName\<close>, a \<^verbatim>\<open>*string\<close> that
  may be nil.
\<close>

record EndpointAddress =
  IP :: string
  NodeName :: "string option"

record EndpointSubset =
  Addresses :: "EndpointAddress list"

record Endpoints =
  Subsets :: "EndpointSubset list"

text \<open>
  What would be a Go run-time panic is a value; the last one is the panic of
  \<^verbatim>\<open>sync.WaitGroup\<close> when a \<^verbatim>\<open>Done\<close> takes its counter below zero.
\<close>

datatype panic = NilPointerDereference | AssignToNilMap | IndexOutOfRange | NegativeWaitGroupCounter

definition deref :: "'a option \<Rightarrow> panic + 'a" where
  "deref p = (case p of None \<Rightarrow> Inl NilPointerDereference | Some v \<Rightarrow> Inr v)"

definition index :: "'a list \<Rightarrow> nat \<Rightarrow> panic + 'a" where
  "index xs i = (if i < length xs then Inr (xs ! i) else Inl IndexOutOfRange)"

text \<open>
  Lines 77--85, the inner loop over the addresses of one subset. The accumulator is the
  slice \<^verbatim>\<open>localendpoints\<close>; \<^verbatim>\<open>append\<close> adds at the end. Line 80 tests the
  pointer, line 81 dereferences it.
\<close>

fun scan_addresses :: "string \<Rightarrow> EndpointAddress list \<Rightarrow> string list \<Rightarrow> panic + string list" where
  "scan_addresses nodeID [] acc = Inr acc"
| "scan_addresses nodeID (a # rest) acc =
     (if NodeName a \<noteq> None then
        (case deref (NodeName a) of
           Inl p \<Rightarrow> Inl p
         | Inr n \<Rightarrow>
             if nodeID = n then scan_addresses nodeID rest (acc @ [IP a])
             else scan_addresses nodeID rest acc)
      else scan_addresses nodeID rest acc)"

text \<open>Lines 76--86, the outer loop over the subsets.\<close>

fun scan_subsets :: "string \<Rightarrow> EndpointSubset list \<Rightarrow> string list \<Rightarrow> panic + string list" where
  "scan_subsets nodeID [] acc = Inr acc"
| "scan_subsets nodeID (sub # rest) acc =
     (case scan_addresses nodeID (Addresses sub) acc of
        Inl p \<Rightarrow> Inl p
      | Inr acc' \<Rightarrow> scan_subsets nodeID rest acc')"

definition localendpoints :: "string \<Rightarrow> Endpoints \<Rightarrow> panic + string list" where
  "localendpoints nodeID ep = scan_subsets nodeID (Subsets ep) []"

text \<open>
  The resolver as the specification words it: every address entry of the snapshot, in
  the snapshot's order, kept iff its node identifier is present and equal to the given one.
\<close>

definition resolve_spec :: "string \<Rightarrow> Endpoints \<Rightarrow> string list" where
  "resolve_spec nodeID ep =
     map IP (filter (\<lambda>a. NodeName a = Some nodeID) (concat (map Addresses (Subsets ep))))"

subsection \<open>Watch events\<close>

text \<open>
  \<^verbatim>\<open>event.Object\<close> is an interface value: the type assertion of line 69 succeeds
  on an \<^verbatim>\<open>*v1.Endpoints\<close> and fails on anything else (the decoder of the watch
  yields no nil pointer of that type). \<^verbatim>\<open>event.Type\<close> is one of the five event
  types of the watch package; the switch of line 67 has no case for bookmarks and no
  default, and its case for errors only logs.
\<close>

datatype object = EndpointsObject Endpoints | OtherObject

datatype event = Added object | Modified object | Deleted | Bookmark | Error

subsection \<open>The service's annotations\<close>

text \<open>
  \<^verbatim>\<open>service.Annotations\<close> is a Go map, possibly nil: reading a nil map gives the zero
  value (the empty string), as reading an absent key does; writing to a nil map panics.
\<close>

type_synonym annotation_map = "(string \<rightharpoonup> string) option"

definition ann_get :: "annotation_map \<Rightarrow> string \<Rightarrow> string" where
  "ann_get m k =
     (case m of
        None \<Rightarrow> ''''
      | Some f \<Rightarrow> (case f k of None \<Rightarrow> '''' | Some v \<Rightarrow> v))"

definition ann_set :: "annotation_map \<Rightarrow> string \<Rightarrow> string \<Rightarrow> panic + annotation_map" where
  "ann_set m k v =
     (case m of
        None \<Rightarrow> Inl AssignToNilMap
      | Some f \<Rightarrow> Inr (Some (f(k \<mapsto> v))))"

subsection \<open>The state of one call of watchEndpoint\<close>

text \<open>
  One call of \<^verbatim>\<open>watchEndpoint\<close> runs three kinds of threads over shared variables:
  the event loop of lines 64--153 (the controller), the goroutine of lines 42--59 that
  waits for a shutdown or for the function's exit (the supervisor), and one goroutine
  of lines 115--132 for each election that the loop launches (the tasks). No variable
  is protected by a lock; the model interleaves the threads, one shared access to a
  step.

  The controller is either waiting on the result channel (line 64), or at line 114
  about to read \<^verbatim>\<open>electionActive\<close>, or has returned. A panic, in the controller or
  in any other goroutine, ends the whole process: \<open>Panicked\<close> stands for the dead
  process, in which no thread moves any more.
\<close>

datatype failure = ParseFailure

datatype ctl_pc = Receiving | Ensuring | Returned "failure option" | Panicked panic

text \<open>
  A task is at the context test of line 119, or has passed it and is about to set the
  flag and call \<^verbatim>\<open>StartServicesLeaderElection\<close> (lines 120--121), or is inside that
  call, or is in the else branch at line 127, or at \<^verbatim>\<open>wg.Done()\<close> (line 131), or gone.
\<close>

datatype task_pc = AtCheck | AtSetActive | InElection | AtElseClear | AtWgDone | Exited

datatype sup_pc = Waiting | Finished

text \<open>
  \<open>chan\<close> holds the events that the retry watcher still delivers, in order, before
  it closes its channel: when none is left the channel is closed. \<open>rw_stopped\<close> says
  that \<^verbatim>\<open>rw.Stop()\<close> was called, which closes the channel at once.
  \<open>cancelled\<close> is the state of the one context that line 24 creates: the function
  creates no other (lines 94--95 are comments). \<open>wg\<close> is the counter of the caller's
  wait group, as this call and its tasks move it; what its other users do to it is not
  modelled. \<open>elections_started\<close> counts the calls of
  \<^verbatim>\<open>StartServicesLeaderElection\<close>.
\<close>

record sys =
  pc :: ctl_pc
  chan :: "event list"
  rw_stopped :: bool
  lastKnownGoodEndpoint :: string
  electionActive :: bool
  cancelled :: bool
  wg :: int
  annotations :: annotation_map
  exitFunction_closed :: bool
  shutdown_closed :: bool
  supervisor :: sup_pc
  tasks :: "task_pc list"
  elections_started :: nat

text \<open>
  The state at line 63, once the retry watcher exists and the supervisor runs, for a
  wait group whose counter stands at \<open>c\<close> on entry. (When \<^verbatim>\<open>NewRetryWatcher\<close> fails,
  lines 36--39 end the call before the loop.)
\<close>

definition loop_entry_with :: "nat \<Rightarrow> annotation_map \<Rightarrow> event list \<Rightarrow> sys" where
  "loop_entry_with c anns evs =
     \<lparr> pc = Receiving, chan = evs, rw_stopped = False, lastKnownGoodEndpoint = '''',
       electionActive = False, cancelled = False, wg = int c, annotations = anns,
       exitFunction_closed = False, shutdown_closed = False, supervisor = Waiting,
       tasks = [], elections_started = 0 \<rparr>"

text \<open>The same for a wait group that nobody else has added to.\<close>

definition loop_entry :: "annotation_map \<Rightarrow> event list \<Rightarrow> sys" where
  "loop_entry anns evs = loop_entry_with 0 anns evs"

subsection \<open>The controller\<close>

definition cancel :: "sys \<Rightarrow> sys" where
  "cancel s = s\<lparr>cancelled := True\<rparr>"

text \<open>A return of the function runs the deferred \<^verbatim>\<open>cancel()\<close> of line 26.\<close>

definition return_with :: "failure option \<Rightarrow> sys \<Rightarrow> sys" where
  "return_with r s = (cancel s)\<lparr>pc := Returned r\<rparr>"

text \<open>Lines 145--147 and lines 154--156: close \<^verbatim>\<open>exitFunction\<close>, return nil.\<close>

definition close_and_return :: "sys \<Rightarrow> sys" where
  "close_and_return s = return_with None (s\<lparr>exitFunction_closed := True\<rparr>)"

text \<open>Lines 102--106.\<close>

fun stillExists_loop :: "string list \<Rightarrow> string \<Rightarrow> bool \<Rightarrow> bool" where
  "stillExists_loop [] lkg found = found"
| "stillExists_loop (x # xs) lkg found = stillExists_loop xs lkg (if x = lkg then True else found)"

text \<open>Lines 91--99: nothing is tracked yet; record the first local address.\<close>

definition track_first :: "string list \<Rightarrow> sys \<Rightarrow> sys" where
  "track_first le s =
     (case index le 0 of
        Inl p \<Rightarrow> s\<lparr>pc := Panicked p\<rparr>
      | Inr a \<Rightarrow>
          let s1 = s\<lparr>lastKnownGoodEndpoint := a, wg := wg s + 1\<rparr> in
          if ann_get (annotations s1) ''kube-vip.io/egress'' = ''true'' then
            (case ann_set (annotations s1) ''kube-vip.io/active-endpoint''
                    (lastKnownGoodEndpoint s1) of
               Inl p \<Rightarrow> s1\<lparr>pc := Panicked p\<rparr>
             | Inr m \<Rightarrow> s1\<lparr>annotations := m, pc := Ensuring\<rparr>)
          else s1\<lparr>pc := Ensuring\<rparr>)"

text \<open>
  Lines 74--141 up to the test of line 114. The \<^verbatim>\<open>break\<close> of line 108 leaves the
  switch, so the loop goes on to the next event.
\<close>

definition on_snapshot :: "string \<Rightarrow> Endpoints \<Rightarrow> sys \<Rightarrow> sys" where
  "on_snapshot nodeID ep s =
     (case localendpoints nodeID ep of
        Inl p \<Rightarrow> s\<lparr>pc := Panicked p\<rparr>
      | Inr le \<Rightarrow>
          if length le \<noteq> 0 then
            if lastKnownGoodEndpoint s = '''' then track_first le s
            else if stillExists_loop le (lastKnownGoodEndpoint s) False then s
            else (cancel s)\<lparr>pc := Ensuring\<rparr>
          else if lastKnownGoodEndpoint s \<noteq> '''' then
            cancel (s\<lparr>lastKnownGoodEndpoint := ''''\<rparr>)
          else s)"

text \<open>Lines 69--73, then the rest of the case.\<close>

definition on_object :: "string \<Rightarrow> object \<Rightarrow> sys \<Rightarrow> sys" where
  "on_object nodeID obj s =
     (case obj of
        OtherObject \<Rightarrow> return_with (Some ParseFailure) (cancel s)
      | EndpointsObject ep \<Rightarrow> on_snapshot nodeID ep s)"

text \<open>The switch of line 67.\<close>

definition handle_event :: "string \<Rightarrow> event \<Rightarrow> sys \<Rightarrow> sys" where
  "handle_event nodeID ev s =
     (case ev of
        Added obj \<Rightarrow> on_object nodeID obj s
      | Modified obj \<Rightarrow> on_object nodeID obj s
      | Deleted \<Rightarrow> close_and_return s
      | Bookmark \<Rightarrow> s
      | Error \<Rightarrow> s)"

text \<open>Lines 114--133: launch a task unless the flag is read as set.\<close>

definition ensure_running :: "sys \<Rightarrow> sys" where
  "ensure_running s =
     (if \<not> electionActive s then s\<lparr>tasks := tasks s @ [AtCheck], pc := Receiving\<rparr>
      else s\<lparr>pc := Receiving\<rparr>)"

text \<open>
  One step of the controller: receive and handle the next event up to line 113, or
  leave the loop when the channel is closed, or do the test of line 114.
\<close>

definition controller_step :: "string \<Rightarrow> sys \<Rightarrow> sys" where
  "controller_step nodeID s =
     (case pc s of
        Receiving \<Rightarrow>
          (if rw_stopped s then close_and_return s
           else
             (case chan s of
                [] \<Rightarrow> close_and_return s
              | ev # rest \<Rightarrow> handle_event nodeID ev (s\<lparr>chan := rest\<rparr>)))
      | Ensuring \<Rightarrow> ensure_running s
      | Returned r \<Rightarrow> s
      | Panicked p \<Rightarrow> s)"

subsection \<open>The election tasks\<close>

text \<open>
  Lines 117--131. \<^verbatim>\<open>StartServicesLeaderElection\<close> is missing from the sources and is
  taken as the most general callee: the call blocks and may return at any time, with or
  without an error (the error is only logged), so its return is a step that is always
  enabled. It is handed the context, the service and the wait group;
  \<^verbatim>\<open>electionActive\<close> and \<^verbatim>\<open>lastKnownGoodEndpoint\<close> are locals of
  \<^verbatim>\<open>watchEndpoint\<close> that it cannot reach, and it cannot cancel the context. What it
  does to the service and to the wait group is not modelled.

  \<^verbatim>\<open>wg.Done()\<close> at line 131 panics when it would take the counter below zero, and
  the panic ends the process. That can happen: the branch of line 110 leads to a launch
  at line 115 with no \<^verbatim>\<open>wg.Add(1)\<close>, which only line 96 does.
\<close>

definition task_step :: "nat \<Rightarrow> sys \<Rightarrow> sys" where
  "task_step i s =
     (if i < length (tasks s) then
        (case tasks s ! i of
           AtCheck \<Rightarrow>
             s\<lparr>tasks := (tasks s)[i := (if \<not> cancelled s then AtSetActive else AtElseClear)]\<rparr>
         | AtSetActive \<Rightarrow>
             s\<lparr>electionActive := True, elections_started := Suc (elections_started s),
               tasks := (tasks s)[i := InElection]\<rparr>
         | InElection \<Rightarrow> s\<lparr>electionActive := False, tasks := (tasks s)[i := AtCheck]\<rparr>
         | AtElseClear \<Rightarrow> s\<lparr>electionActive := False, tasks := (tasks s)[i := AtWgDone]\<rparr>
         | AtWgDone \<Rightarrow>
             if wg s - 1 < 0 then s\<lparr>pc := Panicked NegativeWaitGroupCounter\<rparr>
             else s\<lparr>wg := wg s - 1, tasks := (tasks s)[i := Exited]\<rparr>
         | Exited \<Rightarrow> s)
      else s)"

subsection \<open>The supervisor\<close>

text \<open>Lines 42--59: both branches of the select stop the watcher and cancel.\<close>

definition supervisor_step :: "sys \<Rightarrow> sys" where
  "supervisor_step s =
     (if supervisor s = Waiting \<and> (shutdown_closed s \<or> exitFunction_closed s) then
        (cancel (s\<lparr>rw_stopped := True\<rparr>))\<lparr>supervisor := Finished\<rparr>
      else s)"

subsection \<open>Interleavings\<close>

text \<open>
  A schedule names the thread that takes each step; \<open>Shutdown\<close> is the closing of the
  manager's \<^verbatim>\<open>shutdownChan\<close> by the environment. A thread that cannot move stutters,
  and in a dead process nothing moves.
\<close>

datatype action = Ctl | Task nat | Spv | Shutdown

definition dead :: "sys \<Rightarrow> bool" where
  "dead s = (case pc s of Panicked p \<Rightarrow> True | _ \<Rightarrow> False)"

definition thread_step :: "string \<Rightarrow> action \<Rightarrow> sys \<Rightarrow> sys" where
  "thread_step nodeID a s =
     (case a of
        Ctl \<Rightarrow> controller_step nodeID s
      | Task i \<Rightarrow> task_step i s
      | Spv \<Rightarrow> supervisor_step s
      | Shutdown \<Rightarrow> s\<lparr>shutdown_closed := True\<rparr>)"

definition step :: "string \<Rightarrow> action \<Rightarrow> sys \<Rightarrow> sys" where
  "step nodeID a s = (if dead s then s else thread_step nodeID a s)"

fun run :: "string \<Rightarrow> action list \<Rightarrow> sys \<Rightarrow> sys" where
  "run nodeID [] s = s"
| "run nodeID (a # sch) s = run nodeID sch (step nodeID a s)"

text \<open>How many tasks are at a given place, and how many have not exited.\<close>

definition tasks_at :: "task_pc \<Rightarrow> sys \<Rightarrow> nat" where
  "tasks_at p s = length (filter (\<lambda>q. q = p) (tasks s))"

definition live_tasks :: "sys \<Rightarrow> nat" where
  "live_tasks s = length (filter (\<lambda>q. q \<noteq> Exited) (tasks s))"

subsection \<open>Derived notions and invariants\<close>

text \<open>
  The local addresses of an event: what lines 75--86 compute from an Added or Modified
  event that carries a snapshot; no other event has any.
\<close>

definition local_addresses :: "string \<Rightarrow> event \<Rightarrow> string list option" where
  "local_addresses nodeID ev =
     (case ev of
        Added (EndpointsObject ep) \<Rightarrow>
          (case localendpoints nodeID ep of Inl p \<Rightarrow> None | Inr le \<Rightarrow> Some le)
      | Modified (EndpointsObject ep) \<Rightarrow>
          (case localendpoints nodeID ep of Inl p \<Rightarrow> None | Inr le \<Rightarrow> Some le)
      | _ \<Rightarrow> None)"

text \<open>
  The invariant behind start-once: every event still to come has the address \<open>a\<close>
  among its local addresses, and either no task was launched yet (and then no election
  was started, and either nothing is tracked and no event was consumed, or the
  controller stands at line 114 with \<open>a\<close> tracked), or exactly one was and \<open>a\<close> is
  tracked; and the context is cancelled only after a shutdown or the closing of
  \<^verbatim>\<open>exitFunction\<close>.
\<close>

definition tracking :: "string \<Rightarrow> string \<Rightarrow> event list \<Rightarrow> sys \<Rightarrow> bool" where
  "tracking nodeID a evs s =
     (list_all (\<lambda>ev. case local_addresses nodeID ev of None \<Rightarrow> False | Some le \<Rightarrow> a \<in> set le) (chan s)
      \<and> (cancelled s \<longrightarrow> shutdown_closed s \<or> exitFunction_closed s)
      \<and> (if tasks s = [] then
            \<not> electionActive s \<and> elections_started s = 0 \<and>
            (if pc s = Ensuring then lastKnownGoodEndpoint s = a
             else lastKnownGoodEndpoint s = '''' \<and> chan s = evs)
          else length (tasks s) = 1 \<and> lastKnownGoodEndpoint s = a \<and> pc s \<noteq> Ensuring))"

text \<open>
  The elections that were started, and those that no test of the context can prevent
  any more: a task between line 119 and line 121 will call
  \<^verbatim>\<open>StartServicesLeaderElection\<close> whatever happens to the context.
\<close>

definition pending :: "sys \<Rightarrow> nat" where
  "pending s = elections_started s + tasks_at AtSetActive s"

text \<open>
  The invariant behind the exclusion of elections: no local address still to come is
  the empty string; at most one task is at or in the election call; and as long as the
  context is not cancelled there is at most one task at all, none while nothing is
  tracked, and none while the controller stands at line 114.
\<close>

definition exclusive :: "string \<Rightarrow> sys \<Rightarrow> bool" where
  "exclusive nodeID s =
     (list_all (\<lambda>ev. case local_addresses nodeID ev of None \<Rightarrow> True | Some le \<Rightarrow> '''' \<notin> set le) (chan s)
      \<and> tasks_at AtSetActive s + tasks_at InElection s \<le> 1
      \<and> (cancelled s \<or>
           (length (tasks s) \<le> 1
            \<and> (if pc s = Ensuring then tasks s = [] \<and> lastKnownGoodEndpoint s \<noteq> ''''
                else lastKnownGoodEndpoint s = '''' \<longrightarrow> tasks s = []))))"

text \<open>Snapshots for the scenarios of the specification: one subset of addresses.\<close>

definition address_on :: "string \<Rightarrow> string \<Rightarrow> EndpointAddress" where
  "address_on ip node = \<lparr>IP = ip, NodeName = Some node\<rparr>"

definition snapshot :: "EndpointAddress list \<Rightarrow> object" where
  "snapshot as = EndpointsObject \<lparr>Subsets = [\<lparr>Addresses = as\<rparr>]\<rparr>"

subsection \<open>The annotation update (lines 159--199)\<close>

text \<open>The fields of \<^verbatim>\<open>v1.Service\<close> that the update reads or writes.\<close>

record Service =
  Name :: string
  Namespace :: string
  Annotations :: annotation_map
  ResourceVersion :: nat

datatype api_error = NotFound | Conflict | ServerError

text \<open>
  The cluster API behind \<^verbatim>\<open>sm.clientSet\<close> (client-go and the API server) is not part
  of this repository. The store maps a namespace and a name to the stored service; a
  request may fail for a reason of its own, given as \<open>fault\<close>.
\<close>

type_synonym api = "string \<times> string \<rightharpoonup> Service"

text \<open>
  Modelled from the spec: \<^verbatim>\<open>Services(namespace).Get(name)\<close> of the cluster API, which
  is missing from the sources. Section 6 of the specification:
  \<^verbatim>\<open>get(namespace,name) -> Service\<close>; an absent object is the failure "object not found"
  of section 4.4.
\<close>

definition Get :: "string \<Rightarrow> string \<Rightarrow> api_error option \<Rightarrow> api \<Rightarrow> api_error + Service" where
  "Get ns name fault api =
     (case fault of
        Some e \<Rightarrow> Inl e
      | None \<Rightarrow> (case api (ns, name) of None \<Rightarrow> Inl NotFound | Some svc \<Rightarrow> Inr svc))"

text \<open>
  Modelled from the spec: \<^verbatim>\<open>Services(namespace).Update(service)\<close> of the cluster API,
  which is missing from the sources. Section 6 of the specification:
  \<^verbatim>\<open>update(Service) -> Service | ConflictError\<close>, with optimistic concurrency: the
  update is refused with a conflict when the stored version changed between the read
  and the write (section 4.4). The update goes to the given namespace and the name that
  the object carries, and gives the stored object its next version.
\<close>

definition Update :: "string \<Rightarrow> Service \<Rightarrow> api_error option \<Rightarrow> api \<Rightarrow> api_error option \<times> api" where
  "Update ns obj fault api =
     (case fault of
        Some e \<Rightarrow> (Some e, api)
      | None \<Rightarrow>
          (case api (ns, Name obj) of
             None \<Rightarrow> (Some NotFound, api)
           | Some cur \<Rightarrow>
               if ResourceVersion obj \<noteq> ResourceVersion cur then (Some Conflict, api)
               else (None, api((ns, Name obj) \<mapsto> obj\<lparr>ResourceVersion := ResourceVersion cur + 1\<rparr>))))"

text \<open>
  What other clients of the cluster do to a stored service between the read and the
  write of one attempt: nothing, a write of their own, or a deletion.
\<close>

datatype meddling = Quiet | Rewrite annotation_map | Remove

definition meddle :: "meddling \<Rightarrow> string \<times> string \<Rightarrow> api \<Rightarrow> api" where
  "meddle m key api =
     (case m of
        Quiet \<Rightarrow> api
      | Rewrite anns \<Rightarrow>
          (case api key of
             None \<Rightarrow> api
           | Some svc \<Rightarrow>
               api(key \<mapsto> svc\<lparr>Annotations := anns, ResourceVersion := ResourceVersion svc + 1\<rparr>))
      | Remove \<Rightarrow> api(key := None))"

record attempt_env =
  get_fault :: "api_error option"
  between :: meddling
  update_fault :: "api_error option"

definition calm :: attempt_env where
  "calm = \<lparr>get_fault = None, between = Quiet, update_fault = None\<rparr>"

text \<open>An error value of Go: nil, an error of the API, or a panic.\<close>

datatype outcome = NoError | Failed api_error | Crashed panic

text \<open>
  Lines 161--192, the function literal handed to \<^verbatim>\<open>RetryOnConflict\<close>: fetch the stored
  service by the namespace and name of \<^verbatim>\<open>service\<close>, copy it, give the copy an
  annotation map if it has none, set the key, write the copy back into the namespace of
  the fetched service. \<^verbatim>\<open>DeepCopy\<close> is the copy of a value. The other clients act on
  the stored service between the fetch and the write.
\<close>

definition update_attempt :: "string \<Rightarrow> Service \<Rightarrow> attempt_env \<Rightarrow> api \<Rightarrow> outcome \<times> api" where
  "update_attempt endpoint service env api =
     (case Get (Namespace service) (Name service) (get_fault env) api of
        Inl err \<Rightarrow> (Failed err, api)
      | Inr currentService \<Rightarrow>
          let currentServiceCopy = currentService;
              currentServiceCopy =
                (if Annotations currentServiceCopy = None
                 then currentServiceCopy\<lparr>Annotations := Some Map.empty\<rparr>
                 else currentServiceCopy)
          in
            (case ann_set (Annotations currentServiceCopy) ''kube-vip.io/active-endpoint'' endpoint of
               Inl p \<Rightarrow> (Crashed p, api)
             | Inr m \<Rightarrow>
                 (case Update (Namespace currentService) (currentServiceCopy\<lparr>Annotations := m\<rparr>)
                         (update_fault env)
                         (meddle (between env) (Namespace service, Name service) api) of
                    (Some err, api') \<Rightarrow> (Failed err, api')
                  | (None, api') \<Rightarrow> (NoError, api'))))"

text \<open>
  The environment of the attempts, one entry for each in turn; an attempt beyond the
  list meets a calm one.
\<close>

definition next_env :: "attempt_env list \<Rightarrow> attempt_env" where
  "next_env envs = (case envs of [] \<Rightarrow> calm | e # _ \<Rightarrow> e)"

text \<open>
  Modelled from the spec: \<^verbatim>\<open>retry.RetryOnConflict\<close> with \<^verbatim>\<open>retry.DefaultRetry\<close>, which
  belong to client-go and are missing from the sources. Section 4.4 of the
  specification: on a conflict the whole read-modify-write is retried, a fixed small
  number of attempts in all (here \<open>steps\<close>, the bound of the policy); exhausting them
  surfaces the conflict; any other failure surfaces at once. A policy that allows no
  attempt makes none. The delays between the attempts are not modelled. The third
  component of the result lists the outcomes of the attempts made.
\<close>

fun RetryOnConflict ::
  "nat \<Rightarrow> (attempt_env \<Rightarrow> api \<Rightarrow> outcome \<times> api) \<Rightarrow> attempt_env list \<Rightarrow> api
     \<Rightarrow> outcome \<times> api \<times> outcome list" where
  "RetryOnConflict 0 fn envs api = (NoError, api, [])"
| "RetryOnConflict (Suc n) fn envs api =
     (case fn (next_env envs) api of
        (r, api') \<Rightarrow>
          if r = Failed Conflict \<and> n \<noteq> 0 then
            (case RetryOnConflict n fn (tl envs) api' of
               (r', api'', tr) \<Rightarrow> (r', api'', r # tr))
          else (r, api', [r]))"

text \<open>Lines 159--199: a non-nil result of the retry is logged and returned as it is.\<close>

definition updateServiceEndpointAnnotation ::
  "nat \<Rightarrow> string \<Rightarrow> Service \<Rightarrow> attempt_env list \<Rightarrow> api \<Rightarrow> outcome \<times> api \<times> outcome list" where
  "updateServiceEndpointAnnotation steps endpoint service envs api =
     RetryOnConflict steps (update_attempt endpoint service) envs api"

text \<open>
  What lines 173--178 make of a fetched service: its copy with the key set, in a map of
  its own if the service had none.
\<close>

definition with_active_endpoint :: "string \<Rightarrow> Service \<Rightarrow> Service" where
  "with_active_endpoint endpoint cur =
     cur\<lparr>Annotations :=
           Some ((case Annotations cur of None \<Rightarrow> Map.empty | Some f \<Rightarrow> f)
                  (''kube-vip.io/active-endpoint'' \<mapsto> endpoint))\<rparr>"

text \<open>The store as the attempt number \<open>k\<close> finds it, the first attempt being number 0.\<close>

fun store_before ::
  "nat \<Rightarrow> (attempt_env \<Rightarrow> api \<Rightarrow> outcome \<times> api) \<Rightarrow> attempt_env list \<Rightarrow> api \<Rightarrow> api" where
  "store_before 0 fn envs api = api"
| "store_before (Suc k) fn envs api = store_before k fn (tl envs) (snd (fn (next_env envs) api))"

section \<open>Properties\<close>

subsection \<open>The resolver\<close>

lemma scan_addresses_eq:
  "scan_addresses nodeID as acc =
     Inr (acc @ map IP (filter (\<lambda>a. NodeName a = Some nodeID) as))"
  by (induction as arbitrary: acc) (auto simp: deref_def)

lemma scan_subsets_eq:
  "scan_subsets nodeID subs acc =
     Inr (acc @ map IP (filter (\<lambda>a. NodeName a = Some nodeID) (concat (map Addresses subs))))"
  by (induction subs arbitrary: acc) (simp_all add: scan_addresses_eq)

lemma localendpoints_eq: "localendpoints nodeID ep = Inr (resolve_spec nodeID ep)"
  by (simp add: localendpoints_def resolve_spec_def scan_subsets_eq)

text \<open>
  Claim C5. For every snapshot and node identifier the scan of lines 75--86 returns
  without a panic (the nil \<^verbatim>\<open>NodeName\<close> is never dereferenced), and its result is
  exactly the IPs of the addresses whose node identifier is present and equal to the
  given one, in the order of the snapshot. The scan is a function of its two arguments
  and of nothing else.
\<close>

theorem resolver_exact:
  "localendpoints nodeID ep =
     Inr (map IP (filter (\<lambda>a. NodeName a = Some nodeID) (concat (map Addresses (Subsets ep)))))"
  by (simp add: localendpoints_def scan_subsets_eq)

subsection \<open>Steps of the controller\<close>

lemma stillExists_loop_eq: "stillExists_loop xs lkg found = (found \<or> lkg \<in> set xs)"
  by (induction xs arbitrary: found) auto

lemma on_snapshot_eq:
  "on_snapshot nodeID ep s =
     (let le = resolve_spec nodeID ep in
      if le \<noteq> [] then
        if lastKnownGoodEndpoint s = '''' then track_first le s
        else if lastKnownGoodEndpoint s \<in> set le then s
        else s\<lparr>cancelled := True, pc := Ensuring\<rparr>
      else if lastKnownGoodEndpoint s \<noteq> '''' then
        s\<lparr>lastKnownGoodEndpoint := '''', cancelled := True\<rparr>
      else s)"
  by (simp add: on_snapshot_def localendpoints_eq stillExists_loop_eq cancel_def Let_def)

lemma track_first_eq:
  "le \<noteq> [] \<Longrightarrow> track_first le s =
     s\<lparr>lastKnownGoodEndpoint := hd le, wg := wg s + 1,
       annotations :=
         (if ann_get (annotations s) ''kube-vip.io/egress'' = ''true''
          then map_option (\<lambda>f. f(''kube-vip.io/active-endpoint'' \<mapsto> hd le)) (annotations s)
          else annotations s),
       pc := Ensuring\<rparr>"
  by (cases le) (auto simp: track_first_def index_def ann_get_def ann_set_def Let_def split: option.splits)

lemmas ctl_simps = controller_step_def handle_event_def on_object_def on_snapshot_eq
  track_first_eq ensure_running_def cancel_def return_with_def close_and_return_def Let_def

lemma local_addresses_eq:
  "local_addresses nodeID ev =
     (case ev of Added (EndpointsObject ep) \<Rightarrow> Some (resolve_spec nodeID ep)
      | Modified (EndpointsObject ep) \<Rightarrow> Some (resolve_spec nodeID ep)
      | _ \<Rightarrow> None)"
  by (simp add: local_addresses_def localendpoints_eq split: event.splits object.splits)

lemma step_eq:
  "step nodeID a s =
     (if dead s then s
      else case a of
        Ctl \<Rightarrow> controller_step nodeID s
      | Task i \<Rightarrow> task_step i s
      | Spv \<Rightarrow> supervisor_step s
      | Shutdown \<Rightarrow> s\<lparr>shutdown_closed := True\<rparr>)"
  by (simp add: step_def thread_step_def)

lemma alive [simp]:
  "pc s = Receiving \<Longrightarrow> \<not> dead s"
  "pc s = Ensuring \<Longrightarrow> \<not> dead s"
  "pc s = Returned r \<Longrightarrow> \<not> dead s"
  "pc s = Panicked p \<Longrightarrow> dead s"
  by (simp_all add: dead_def)

lemma step_cases [case_names Dead Ctl Task Spv Shutdown]:
  assumes "dead s \<Longrightarrow> Q s"
    and "\<not> dead s \<Longrightarrow> Q (controller_step nodeID s)"
    and "\<And>i. \<not> dead s \<Longrightarrow> Q (task_step i s)"
    and "\<not> dead s \<Longrightarrow> Q (supervisor_step s)"
    and "\<not> dead s \<Longrightarrow> Q (s\<lparr>shutdown_closed := True\<rparr>)"
  shows "Q (step nodeID a s)"
  using assms by (cases a) (auto simp: step_eq)

subsection \<open>The invariant of start-once\<close>

lemma tracking_task_step:
  "tracking nodeID a evs s \<Longrightarrow> tracking nodeID a evs (task_step i s)"
  by (auto simp: tracking_def task_step_def split: task_pc.splits if_splits)

lemma tracking_supervisor_step:
  "tracking nodeID a evs s \<Longrightarrow> tracking nodeID a evs (supervisor_step s)"
  by (auto simp: tracking_def supervisor_step_def cancel_def split: if_splits)

lemma controller_receive:
  "pc s = Receiving \<Longrightarrow> \<not> rw_stopped s \<Longrightarrow> chan s = ev # rest \<Longrightarrow>
   controller_step nodeID s = handle_event nodeID ev (s\<lparr>chan := rest\<rparr>)"
  by (simp add: controller_step_def)

lemma controller_snapshot:
  "pc s = Receiving \<Longrightarrow> \<not> rw_stopped s \<Longrightarrow> chan s = ev # rest \<Longrightarrow>
   ev = Added (EndpointsObject ep) \<or> ev = Modified (EndpointsObject ep) \<Longrightarrow>
   controller_step nodeID s = on_snapshot nodeID ep (s\<lparr>chan := rest\<rparr>)"
  by (auto simp: controller_step_def handle_event_def on_object_def)

lemma controller_closed:
  "pc s = Receiving \<Longrightarrow> rw_stopped s \<or> chan s = [] \<Longrightarrow>
   controller_step nodeID s = s\<lparr>exitFunction_closed := True, cancelled := True, pc := Returned None\<rparr>"
  by (auto simp: controller_step_def close_and_return_def return_with_def cancel_def)

lemma tracking_controller_step:
  assumes inv: "tracking nodeID a evs s" and first: "local_addresses nodeID (hd evs) = Some le0"
    and "le0 \<noteq> []" and "hd le0 = a" and "a \<noteq> ''''"
  shows "tracking nodeID a evs (controller_step nodeID s)"
proof (cases "pc s")
  case Receiving
  show ?thesis
  proof (cases "rw_stopped s \<or> chan s = []")
    case True
    show ?thesis
      unfolding controller_closed [OF Receiving True] using inv Receiving
      by (auto simp: tracking_def split: if_splits)
  next
    case False
    then obtain ev rest where ch: "chan s = ev # rest" and ns: "\<not> rw_stopped s"
      by (cases "chan s") auto
    from inv ch obtain le where le: "local_addresses nodeID ev = Some le" "a \<in> set le"
      and rest: "list_all (\<lambda>ev. case local_addresses nodeID ev of None \<Rightarrow> False | Some le \<Rightarrow> a \<in> set le) rest"
      by (auto simp: tracking_def split: option.splits)
    then obtain ep where ev: "ev = Added (EndpointsObject ep) \<or> ev = Modified (EndpointsObject ep)"
      and r: "resolve_spec nodeID ep = le"
      by (auto simp: local_addresses_eq split: event.splits object.splits)
    from le have ne: "le \<noteq> []" by auto
    from inv have canc: "cancelled s \<longrightarrow> shutdown_closed s \<or> exitFunction_closed s"
      by (simp add: tracking_def)
    note st = controller_snapshot [OF Receiving ns ch ev]
    show ?thesis
    proof (cases "tasks s = []")
      case True
      with inv Receiving have e: "chan s = evs" "lastKnownGoodEndpoint s = ''''" "\<not> electionActive s"
        "elections_started s = 0"
        by (auto simp: tracking_def split: if_splits)
      with ch first le have "le = le0" by auto
      with assms have "hd le = a" by simp
      then show ?thesis unfolding st using rest r ne True e canc
        by (simp add: tracking_def on_snapshot_eq track_first_eq)
    next
      case False
      with inv Receiving have e: "lastKnownGoodEndpoint s = a" "length (tasks s) = 1"
        by (auto simp: tracking_def split: if_splits)
      show ?thesis unfolding st using rest r ne False e le assms(5) Receiving canc
        by (simp add: tracking_def on_snapshot_eq)
    qed
  qed
next
  case Ensuring
  then show ?thesis using inv assms(5)
    by (auto simp: tracking_def controller_step_def ensure_running_def split: if_splits)
next
  case (Returned r)
  then show ?thesis using inv by (simp add: controller_step_def)
next
  case (Panicked p)
  then show ?thesis using inv by (simp add: controller_step_def)
qed

lemma tracking_step:
  assumes "tracking nodeID a evs s" and "local_addresses nodeID (hd evs) = Some le0"
    and "le0 \<noteq> []" and "hd le0 = a" and "a \<noteq> ''''"
  shows "tracking nodeID a evs (step nodeID act s)"
proof (rule step_cases)
  show "tracking nodeID a evs (controller_step nodeID s)"
    by (rule tracking_controller_step [OF assms])
  show "tracking nodeID a evs (task_step i s)" for i
    by (rule tracking_task_step [OF assms(1)])
  show "tracking nodeID a evs (supervisor_step s)"
    by (rule tracking_supervisor_step [OF assms(1)])
  show "tracking nodeID a evs (s\<lparr>shutdown_closed := True\<rparr>)"
    using assms(1) by (auto simp: tracking_def split: if_splits)
qed (rule assms(1))

lemma tracking_run:
  assumes "local_addresses nodeID (hd evs) = Some le0"
    and "le0 \<noteq> []" and "hd le0 = a" and "a \<noteq> ''''"
  shows "tracking nodeID a evs s \<Longrightarrow> tracking nodeID a evs (run nodeID sch s)"
proof (induction sch arbitrary: s)
  case Nil
  then show ?case by simp
next
  case (Cons act sch)
  from tracking_step [OF Cons.prems assms] Cons.IH show ?case by simp
qed

subsection \<open>Counting tasks\<close>

lemma length_filter_update:
  "i < length xs \<Longrightarrow>
   length (filter P (xs[i := y])) + (if P (xs ! i) then 1 else 0)
     = length (filter P xs) + (if P y then 1 else 0)"
proof (induction xs arbitrary: i)
  case Nil
  then show ?case by simp
next
  case (Cons x xs)
  show ?case
  proof (cases i)
    case 0
    then show ?thesis by simp
  next
    case (Suc j)
    with Cons.prems have "j < length xs" by simp
    from Cons.IH [OF this] Suc show ?thesis by simp
  qed
qed

lemma count_update_from:
  "i < length xs \<Longrightarrow> xs ! i = p \<Longrightarrow> q \<noteq> p \<Longrightarrow>
   length (filter (\<lambda>r. r = p) xs) = Suc (length (filter (\<lambda>r. r = p) (xs[i := q])))"
  using length_filter_update [of i xs "\<lambda>r. r = p" q] by simp

lemma count_update_other:
  "i < length xs \<Longrightarrow> xs ! i \<noteq> p \<Longrightarrow> q \<noteq> p \<Longrightarrow>
   length (filter (\<lambda>r. r = p) (xs[i := q])) = length (filter (\<lambda>r. r = p) xs)"
  using length_filter_update [of i xs "\<lambda>r. r = p" q] by simp

lemma count_update_to:
  "i < length xs \<Longrightarrow> xs ! i \<noteq> p \<Longrightarrow>
   length (filter (\<lambda>r. r = p) (xs[i := p])) = Suc (length (filter (\<lambda>r. r = p) xs))"
  using length_filter_update [of i xs "\<lambda>r. r = p" p] by simp

subsection \<open>A cancelled context stays cancelled\<close>

lemma cancelled_controller_step: "cancelled s \<Longrightarrow> cancelled (controller_step nodeID s)"
  by (auto simp: ctl_simps split: ctl_pc.splits list.splits event.splits object.splits)

lemma cancelled_task_step: "cancelled s \<Longrightarrow> cancelled (task_step i s)"
  by (auto simp: task_step_def split: task_pc.splits)

lemma cancelled_step: "cancelled s \<Longrightarrow> cancelled (step nodeID a s)"
  by (rule step_cases)
    (simp_all add: cancelled_controller_step cancelled_task_step supervisor_step_def cancel_def)

lemma cancelled_run: "cancelled s \<Longrightarrow> cancelled (run nodeID sch s)"
  by (induction sch arbitrary: s) (simp_all add: cancelled_step)


text \<open>What a controller step does to the tasks: nothing, or one more at the context test.\<close>

lemma controller_step_tasks:
  "tasks (controller_step nodeID s) = tasks s
   \<or> (pc s = Ensuring \<and> \<not> electionActive s \<and> controller_step nodeID s = s\<lparr>tasks := tasks s @ [AtCheck], pc := Receiving\<rparr>)"
  by (auto simp: ctl_simps split: ctl_pc.splits list.splits event.splits object.splits)

lemma controller_step_started:
  "elections_started (controller_step nodeID s) = elections_started s"
  by (auto simp: ctl_simps split: ctl_pc.splits list.splits event.splits object.splits)

lemma controller_step_at:
  "p \<noteq> AtCheck \<Longrightarrow> tasks_at p (controller_step nodeID s) = tasks_at p s"
  using controller_step_tasks [of nodeID s] by (auto simp: tasks_at_def)

text \<open>Once the context is cancelled, no task passes the test of line 119 any more.\<close>

lemma pending_task_step:
  "cancelled s \<Longrightarrow> pending (task_step i s) \<le> pending s"
proof (cases "i < length (tasks s)")
  case False
  then show ?thesis by (simp add: task_step_def)
next
  case True
  assume c: "cancelled s"
  show ?thesis
  proof (cases "tasks s ! i")
    case AtSetActive
    with True count_update_from [OF True AtSetActive, of InElection] show ?thesis
      by (simp add: pending_def task_step_def tasks_at_def)
  qed (use True c in \<open>simp_all add: pending_def task_step_def tasks_at_def count_update_other\<close>)
qed

lemma pending_step:
  assumes "cancelled s"
  shows "pending (step nodeID a s) \<le> pending s"
proof (rule step_cases)
  show "pending (controller_step nodeID s) \<le> pending s"
    by (simp add: pending_def controller_step_started controller_step_at)
  show "pending (task_step i s) \<le> pending s" for i
    using assms by (rule pending_task_step)
  show "pending (supervisor_step s) \<le> pending s"
    by (simp add: pending_def supervisor_step_def cancel_def tasks_at_def)
  show "pending (s\<lparr>shutdown_closed := True\<rparr>) \<le> pending s"
    by (simp add: pending_def tasks_at_def)
qed simp

lemma pending_run: "cancelled s \<Longrightarrow> pending (run nodeID sch s) \<le> pending s"
proof (induction sch arbitrary: s)
  case Nil
  then show ?case by simp
next
  case (Cons a sch)
  have "cancelled (step nodeID a s)" using Cons.prems by (rule cancelled_step)
  from Cons.IH [OF this] pending_step [OF Cons.prems, of nodeID a] show ?case by simp
qed



subsection \<open>The invariant of exclusion\<close>

lemma exclusive_task_step:
  assumes inv: "exclusive nodeID s"
  shows "exclusive nodeID (task_step i s)"
proof (cases "i < length (tasks s)")
  case False
  then show ?thesis using inv by (simp add: task_step_def)
next
  case True
  show ?thesis
  proof (cases "cancelled s")
    case c: True
    show ?thesis
    proof (cases "tasks s ! i")
      case AtSetActive
      with True inv c count_update_from [OF True AtSetActive, of InElection]
        count_update_to [OF True, of InElection]
      show ?thesis
        by (simp add: exclusive_def task_step_def tasks_at_def)
    next
      case InElection
      with True inv c count_update_from [OF True InElection, of AtCheck]
      show ?thesis
        by (simp add: exclusive_def task_step_def tasks_at_def count_update_other)
    qed (use True inv c in \<open>simp_all add: exclusive_def task_step_def tasks_at_def count_update_other\<close>)
  next
    case nc: False
    with inv True obtain t where t: "tasks s = [t]" and i: "i = 0"
      by (cases "tasks s") (auto simp: exclusive_def)
    with inv nc show ?thesis
      by (cases t) (auto simp: exclusive_def task_step_def tasks_at_def split: if_splits)
  qed
qed

lemma exclusive_controller_step:
  assumes inv: "exclusive nodeID s"
  shows "exclusive nodeID (controller_step nodeID s)"
proof (cases "pc s")
  case Receiving
  show ?thesis
  proof (cases "rw_stopped s \<or> chan s = []")
    case True
    show ?thesis
      unfolding controller_closed [OF Receiving True] using inv
      by (simp add: exclusive_def tasks_at_def)
  next
    case False
    then obtain ev rest where ch: "chan s = ev # rest" and ns: "\<not> rw_stopped s"
      by (cases "chan s") auto
    from inv ch have rest: "list_all (\<lambda>ev. case local_addresses nodeID ev of None \<Rightarrow> True | Some le \<Rightarrow> '''' \<notin> set le) rest"
      and ev: "case local_addresses nodeID ev of None \<Rightarrow> True | Some le \<Rightarrow> '''' \<notin> set le"
      by (simp_all add: exclusive_def)
    have hd: "resolve_spec nodeID ep \<noteq> [] \<Longrightarrow> hd (resolve_spec nodeID ep) \<noteq> ''''"
      if "ev = Added (EndpointsObject ep) \<or> ev = Modified (EndpointsObject ep)" for ep
      using that ev by (cases "resolve_spec nodeID ep") (auto simp: local_addresses_eq)
    show ?thesis
      unfolding controller_receive [OF Receiving ns ch] using inv rest Receiving hd
      by (cases ev)
        (auto simp: exclusive_def tasks_at_def handle_event_def on_object_def on_snapshot_eq
          track_first_eq close_and_return_def return_with_def cancel_def Let_def
          split: object.splits)
  qed
next
  case Ensuring
  then show ?thesis using inv
    by (auto simp: exclusive_def tasks_at_def controller_step_def ensure_running_def)
next
  case (Returned r)
  then show ?thesis using inv by (simp add: controller_step_def)
next
  case (Panicked p)
  then show ?thesis using inv by (simp add: controller_step_def)
qed

lemma exclusive_step:
  assumes "exclusive nodeID s"
  shows "exclusive nodeID (step nodeID a s)"
proof (rule step_cases)
  show "exclusive nodeID (controller_step nodeID s)"
    using assms by (rule exclusive_controller_step)
  show "exclusive nodeID (task_step i s)" for i
    using assms by (rule exclusive_task_step)
  show "exclusive nodeID (supervisor_step s)"
    using assms by (simp add: supervisor_step_def cancel_def exclusive_def tasks_at_def)
  show "exclusive nodeID (s\<lparr>shutdown_closed := True\<rparr>)"
    using assms by (auto simp: exclusive_def tasks_at_def split: if_splits)
qed (rule assms)

lemma exclusive_run: "exclusive nodeID s \<Longrightarrow> exclusive nodeID (run nodeID sch s)"
  by (induction sch arbitrary: s) (simp_all add: exclusive_step)

subsection \<open>Attempts and retries\<close>

lemma update_attempt_no_crash: "fst (update_attempt endpoint service env api) \<noteq> Crashed p"
  by (auto simp: update_attempt_def Get_def Update_def ann_set_def Let_def
      split: option.splits sum.splits prod.splits if_splits)

text \<open>
  A successful attempt has stored, under its own namespace and name, the service it
  fetched with the key set.
\<close>

lemma update_attempt_success:
  assumes "update_attempt endpoint service env api = (NoError, api')"
  obtains cur and old :: Service where "api (Namespace service, Name service) = Some cur"
    and "api' (Namespace cur, Name cur) =
         Some (cur\<lparr>Annotations :=
                  Some ((case Annotations cur of None \<Rightarrow> Map.empty | Some f \<Rightarrow> f)
                         (''kube-vip.io/active-endpoint'' \<mapsto> endpoint)),
                ResourceVersion := Suc (ResourceVersion old)\<rparr>)"
proof -
  from assms obtain cur where cur: "api (Namespace service, Name service) = Some cur"
    and g: "get_fault env = None"
    by (auto simp: update_attempt_def Get_def split: option.splits)
  let ?api = "meddle (between env) (Namespace service, Name service) api"
  let ?m = "(case Annotations cur of None \<Rightarrow> Map.empty | Some f \<Rightarrow> f)
              (''kube-vip.io/active-endpoint'' \<mapsto> endpoint)"
  from assms cur g have
    u: "Update (Namespace cur) (cur\<lparr>Annotations := Some ?m\<rparr>) (update_fault env) ?api = (None, api')"
    by (auto simp: update_attempt_def Get_def ann_set_def Let_def
        split: option.splits prod.splits)
  then obtain old where "?api (Namespace cur, Name cur) = Some old"
    and "api' = ?api((Namespace cur, Name cur) \<mapsto>
           cur\<lparr>Annotations := Some ?m, ResourceVersion := ResourceVersion old + 1\<rparr>)"
    by (auto simp: Update_def split: option.splits if_splits)
  then have "api' (Namespace cur, Name cur) =
      Some (cur\<lparr>Annotations := Some ?m, ResourceVersion := Suc (ResourceVersion old)\<rparr>)"
    by simp
  with cur show ?thesis by (rule that)
qed

lemma update_attempt_annotated:
  assumes "update_attempt endpoint service env api = (NoError, api')"
  shows "\<exists>svc. api' (Namespace svc, Name svc) = Some svc
     \<and> ann_get (Annotations svc) ''kube-vip.io/active-endpoint'' = endpoint"
proof -
  from assms obtain cur and old :: Service where
    "api' (Namespace cur, Name cur) =
         Some (cur\<lparr>Annotations :=
                  Some ((case Annotations cur of None \<Rightarrow> Map.empty | Some f \<Rightarrow> f)
                         (''kube-vip.io/active-endpoint'' \<mapsto> endpoint)),
                ResourceVersion := Suc (ResourceVersion old)\<rparr>)"
    by (rule update_attempt_success)
  then show ?thesis
    by (intro exI [of _ "cur\<lparr>Annotations :=
                  Some ((case Annotations cur of None \<Rightarrow> Map.empty | Some f \<Rightarrow> f)
                         (''kube-vip.io/active-endpoint'' \<mapsto> endpoint)),
                ResourceVersion := Suc (ResourceVersion old)\<rparr>"])
      (simp add: ann_get_def)
qed

lemma retry_trace:
  "0 < steps \<Longrightarrow> RetryOnConflict steps fn envs api = (r, api', tr) \<Longrightarrow>
   tr \<noteq> [] \<and> length tr \<le> steps \<and> r = last tr
   \<and> (\<forall>out \<in> set (butlast tr). out = Failed Conflict)
   \<and> (r = Failed Conflict \<longrightarrow> length tr = steps)"
proof (induction steps arbitrary: envs api r api' tr)
  case 0
  then show ?case by simp
next
  case (Suc n)
  obtain r1 api1 where a: "fn (next_env envs) api = (r1, api1)" by force
  show ?case
  proof (cases "r1 = Failed Conflict \<and> n \<noteq> 0")
    case False
    with Suc.prems a show ?thesis by auto
  next
    case True
    obtain r2 api2 tr2 where b: "RetryOnConflict n fn (tl envs) api1 = (r2, api2, tr2)"
      by (metis prod_cases3)
    from True have "0 < n" by simp
    from Suc.IH [OF this b] Suc.prems a b True show ?thesis by auto
  qed
qed

lemma retry_success:
  "RetryOnConflict steps fn envs api = (NoError, api', tr) \<Longrightarrow> 0 < steps \<Longrightarrow>
   \<exists>env api0. fn env api0 = (NoError, api')"
proof (induction steps arbitrary: envs api tr)
  case 0
  then show ?case by simp
next
  case (Suc n)
  obtain r1 api1 where a: "fn (next_env envs) api = (r1, api1)" by force
  show ?case
  proof (cases "r1 = Failed Conflict \<and> n \<noteq> 0")
    case False
    with Suc.prems a have "fn (next_env envs) api = (NoError, api')" by auto
    then show ?thesis by blast
  next
    case True
    obtain r2 api2 tr2 where b: "RetryOnConflict n fn (tl envs) api1 = (r2, api2, tr2)"
      by (metis prod_cases3)
    with Suc.prems a True have "RetryOnConflict n fn (tl envs) api1 = (NoError, api', tr2)" by auto
    from Suc.IH [OF this] True show ?thesis by simp
  qed
qed

text \<open>One attempt, read off the store: the fetch, then the write of the fetched service.\<close>

lemma update_attempt_eq:
  "update_attempt endpoint service env st =
     (case Get (Namespace service) (Name service) (get_fault env) st of
        Inl e \<Rightarrow> (Failed e, st)
      | Inr cur \<Rightarrow>
          (case Update (Namespace cur) (with_active_endpoint endpoint cur) (update_fault env)
                  (meddle (between env) (Namespace service, Name service) st) of
             (None, st') \<Rightarrow> (NoError, st')
           | (Some e, st') \<Rightarrow> (Failed e, st')))"
  by (auto simp: update_attempt_def with_active_endpoint_def ann_set_def Let_def
      split: sum.splits option.splits prod.splits)

lemma store_before_Suc:
  "store_before (Suc k) fn envs api =
     snd (fn (next_env (drop k envs)) (store_before k fn envs api))"
proof (induction k arbitrary: envs api)
  case 0
  then show ?case by simp
next
  case (Suc k)
  have "store_before (Suc (Suc k)) fn envs api
      = store_before (Suc k) fn (tl envs) (snd (fn (next_env envs) api))"
    by simp
  also have "\<dots> = snd (fn (next_env (drop k (tl envs)))
      (store_before k fn (tl envs) (snd (fn (next_env envs) api))))"
    by (rule Suc.IH)
  finally show ?case by (simp add: drop_Suc)
qed

lemma retry_attempts:
  "RetryOnConflict steps fn envs api = (r, api', tr) \<Longrightarrow>
   api' = store_before (length tr) fn envs api
   \<and> (\<forall>k<length tr. tr ! k = fst (fn (next_env (drop k envs)) (store_before k fn envs api)))"
proof (induction steps arbitrary: envs api r api' tr)
  case 0
  then show ?case by simp
next
  case (Suc n)
  obtain r1 api1 where a: "fn (next_env envs) api = (r1, api1)" by force
  show ?case
  proof (cases "r1 = Failed Conflict \<and> n \<noteq> 0")
    case False
    with Suc.prems a show ?thesis by auto
  next
    case True
    obtain r2 api2 tr2 where b: "RetryOnConflict n fn (tl envs) api1 = (r2, api2, tr2)"
      by (metis prod_cases3)
    with Suc.prems a True have tr: "tr = r1 # tr2" and ap: "api' = api2" by auto
    from Suc.IH [OF b] have st: "api2 = store_before (length tr2) fn (tl envs) api1"
      and nth: "\<And>j. j < length tr2 \<Longrightarrow>
        tr2 ! j = fst (fn (next_env (drop j (tl envs))) (store_before j fn (tl envs) api1))"
      by auto
    have "tr ! k = fst (fn (next_env (drop k envs)) (store_before k fn envs api))"
      if "k < length tr" for k
    proof (cases k)
      case 0
      with tr a show ?thesis by simp
    next
      case (Suc j)
      with that tr have "j < length tr2" by simp
      from nth [OF this] Suc tr a show ?thesis by (simp add: drop_Suc)
    qed
    with st ap tr a show ?thesis by simp
  qed
qed

subsection \<open>Evaluating the scenarios\<close>

lemmas run_defs = step_def thread_step_def dead_def controller_step_def handle_event_def on_object_def on_snapshot_def
  localendpoints_def deref_def track_first_def ensure_running_def cancel_def return_with_def
  close_and_return_def index_def ann_get_def ann_set_def task_step_def supervisor_step_def
  loop_entry_def loop_entry_with_def snapshot_def address_on_def local_addresses_def

subsection \<open>After the return\<close>

text \<open>
  Once the controller has returned it does nothing more: the events left in the channel
  stay there, the tracked address and the number of tasks stay as they are. The tasks
  go on, and one of them may end the process at line 131.
\<close>

lemma returned_step:
  assumes "pc s = Returned r \<or> pc s = Panicked NegativeWaitGroupCounter"
  shows "(pc (step nodeID a s) = Returned r \<or> pc (step nodeID a s) = Panicked NegativeWaitGroupCounter)
   \<and> chan (step nodeID a s) = chan s
   \<and> lastKnownGoodEndpoint (step nodeID a s) = lastKnownGoodEndpoint s
   \<and> length (tasks (step nodeID a s)) = length (tasks s)"
proof (rule step_cases)
  assume "\<not> dead s"
  with assms have r: "pc s = Returned r" by auto
  then show "(pc (controller_step nodeID s) = Returned r
      \<or> pc (controller_step nodeID s) = Panicked NegativeWaitGroupCounter)
   \<and> chan (controller_step nodeID s) = chan s
   \<and> lastKnownGoodEndpoint (controller_step nodeID s) = lastKnownGoodEndpoint s
   \<and> length (tasks (controller_step nodeID s)) = length (tasks s)"
    by (simp add: controller_step_def)
  from r show "(pc (task_step i s) = Returned r \<or> pc (task_step i s) = Panicked NegativeWaitGroupCounter)
   \<and> chan (task_step i s) = chan s
   \<and> lastKnownGoodEndpoint (task_step i s) = lastKnownGoodEndpoint s
   \<and> length (tasks (task_step i s)) = length (tasks s)" for i
    by (auto simp: task_step_def split: task_pc.splits)
  from r show "(pc (supervisor_step s) = Returned r \<or> pc (supervisor_step s) = Panicked NegativeWaitGroupCounter)
   \<and> chan (supervisor_step s) = chan s
   \<and> lastKnownGoodEndpoint (supervisor_step s) = lastKnownGoodEndpoint s
   \<and> length (tasks (supervisor_step s)) = length (tasks s)"
    by (simp add: supervisor_step_def cancel_def)
  from r show "(pc (s\<lparr>shutdown_closed := True\<rparr>) = Returned r
      \<or> pc (s\<lparr>shutdown_closed := True\<rparr>) = Panicked NegativeWaitGroupCounter)
   \<and> chan (s\<lparr>shutdown_closed := True\<rparr>) = chan s
   \<and> lastKnownGoodEndpoint (s\<lparr>shutdown_closed := True\<rparr>) = lastKnownGoodEndpoint s
   \<and> length (tasks (s\<lparr>shutdown_closed := True\<rparr>)) = length (tasks s)"
    by simp
qed (use assms in simp)

lemma returned_run:
  "pc s = Returned r \<or> pc s = Panicked NegativeWaitGroupCounter \<Longrightarrow>
   (pc (run nodeID sch s) = Returned r \<or> pc (run nodeID sch s) = Panicked NegativeWaitGroupCounter)
   \<and> chan (run nodeID sch s) = chan s
   \<and> lastKnownGoodEndpoint (run nodeID sch s) = lastKnownGoodEndpoint s
   \<and> length (tasks (run nodeID sch s)) = length (tasks s)"
proof (induction sch arbitrary: s)
  case Nil
  then show ?case by simp
next
  case (Cons a sch)
  from returned_step [OF Cons.prems, of nodeID a] Cons.IH [of "step nodeID a s"]
  show ?case by simp
qed

text \<open>The supervisor has stopped the watcher whenever it is done.\<close>

lemma supervisor_step_inv:
  assumes "supervisor s = Finished \<longrightarrow> rw_stopped s"
  shows "supervisor (step nodeID a s) = Finished \<longrightarrow> rw_stopped (step nodeID a s)"
  by (rule step_cases)
    (use assms in \<open>auto simp: ctl_simps task_step_def supervisor_step_def
      split: ctl_pc.splits list.splits event.splits object.splits task_pc.splits\<close>)

lemma supervisor_run_inv:
  "supervisor s = Finished \<longrightarrow> rw_stopped s \<Longrightarrow>
   supervisor (run nodeID sch s) = Finished \<longrightarrow> rw_stopped (run nodeID sch s)"
proof (induction sch arbitrary: s)
  case Nil
  then show ?case by simp
next
  case (Cons a sch)
  from Cons.IH [OF supervisor_step_inv [OF Cons.prems, of nodeID a]] show ?case by simp
qed

lemma closed_step:
  assumes "exitFunction_closed s"
  shows "exitFunction_closed (step nodeID a s)"
  by (rule step_cases)
    (use assms in \<open>auto simp: ctl_simps task_step_def supervisor_step_def
      split: ctl_pc.splits list.splits event.splits object.splits task_pc.splits\<close>)

lemma stopped_step:
  assumes "rw_stopped s \<or> dead s"
  shows "rw_stopped (step nodeID a s) \<or> dead (step nodeID a s)"
  by (rule step_cases)
    (use assms in \<open>auto simp: ctl_simps task_step_def supervisor_step_def dead_def
      split: ctl_pc.splits list.splits event.splits object.splits task_pc.splits\<close>)

lemma stopped_run:
  "rw_stopped s \<or> dead s \<Longrightarrow> rw_stopped (run nodeID sch s) \<or> dead (run nodeID sch s)"
proof (induction sch arbitrary: s)
  case Nil
  then show ?case by simp
next
  case (Cons a sch)
  from Cons.IH [OF stopped_step [OF Cons.prems, of nodeID a]] show ?case by simp
qed

lemma supervisor_stops_watch:
  "exitFunction_closed s \<Longrightarrow> supervisor s = Finished \<longrightarrow> rw_stopped s \<Longrightarrow> Spv \<in> set sch \<Longrightarrow>
   rw_stopped (run nodeID sch s) \<or> dead (run nodeID sch s)"
proof (induction sch arbitrary: s)
  case Nil
  then show ?case by simp
next
  case (Cons a sch)
  show ?case
  proof (cases "a = Spv")
    case True
    with Cons.prems(1,2) have "rw_stopped (step nodeID a s) \<or> dead (step nodeID a s)"
      by (cases "supervisor s") (auto simp: step_eq supervisor_step_def cancel_def dead_def)
    then show ?thesis using stopped_run by simp
  next
    case False
    with Cons.prems(3) have "Spv \<in> set sch" by simp
    from Cons.IH [OF closed_step [OF Cons.prems(1)] supervisor_step_inv [OF Cons.prems(2)] this]
    show ?thesis by simp
  qed
qed

text \<open>
  The panic of line 131 is reachable. The election for 10.0.0.5 returns; a snapshot
  without that address takes the branch of line 110, and line 115 launches a second
  task with no \<^verbatim>\<open>wg.Add(1)\<close>. The first task takes the counter back to its entry
  value, the second one below it.
\<close>

lemma done_without_add:
  "pc (run ''node-1''
        [Ctl, Ctl, Task 0, Task 0, Task 0, Ctl, Ctl, Task 0, Task 0, Task 0, Task 1, Task 1, Task 1]
        (loop_entry None
          [Added (snapshot [address_on ''10.0.0.5'' ''node-1'']),
           Modified (snapshot [address_on ''10.0.0.6'' ''node-1''])]))
     = Panicked NegativeWaitGroupCounter"
  by (simp add: run_defs)

subsection \<open>Start once\<close>

text \<open>
  Claim C2, as the specification states it, fails on this code. Scenarios A and B on
  node-1: the address 10.0.0.5 appears, then stays while an address on another node
  joins, so the tracked address is among the local addresses of both events. In the
  first run the election returns twice while the context is live, and the task of lines
  117--130 calls \<^verbatim>\<open>StartServicesLeaderElection\<close> again each time: three calls when the
  sequence is consumed. In the second run the controller has consumed the sequence
  before the task was scheduled: no call yet. In the third run the address recorded
  is the empty string, which the code reads as "nothing tracked": the second event
  records again and launches a second task.
\<close>

theorem start_once_counterexample:
  "local_addresses ''node-1'' (Added (snapshot [address_on ''10.0.0.5'' ''node-1''])) = Some [''10.0.0.5'']
   \<and> local_addresses ''node-1''
        (Modified (snapshot [address_on ''10.0.0.5'' ''node-1'', address_on ''10.0.0.9'' ''node-2'']))
      = Some [''10.0.0.5'']
   \<and> elections_started (run ''node-1''
        [Ctl, Ctl, Task 0, Task 0, Task 0, Task 0, Task 0, Ctl, Task 0, Task 0, Task 0]
        (loop_entry None
          [Added (snapshot [address_on ''10.0.0.5'' ''node-1'']),
           Modified (snapshot [address_on ''10.0.0.5'' ''node-1'', address_on ''10.0.0.9'' ''node-2''])]))
      = 3
   \<and> chan (run ''node-1''
        [Ctl, Ctl, Task 0, Task 0, Task 0, Task 0, Task 0, Ctl, Task 0, Task 0, Task 0]
        (loop_entry None
          [Added (snapshot [address_on ''10.0.0.5'' ''node-1'']),
           Modified (snapshot [address_on ''10.0.0.5'' ''node-1'', address_on ''10.0.0.9'' ''node-2''])]))
      = []
   \<and> elections_started (run ''node-1'' [Ctl, Ctl, Ctl]
        (loop_entry None
          [Added (snapshot [address_on ''10.0.0.5'' ''node-1'']),
           Modified (snapshot [address_on ''10.0.0.5'' ''node-1'', address_on ''10.0.0.9'' ''node-2''])]))
      = 0
   \<and> chan (run ''node-1'' [Ctl, Ctl, Ctl]
        (loop_entry None
          [Added (snapshot [address_on ''10.0.0.5'' ''node-1'']),
           Modified (snapshot [address_on ''10.0.0.5'' ''node-1'', address_on ''10.0.0.9'' ''node-2''])]))
      = []
   \<and> local_addresses ''node-1'' (Modified (snapshot [address_on '''' ''node-1''])) = Some ['''']
   \<and> tasks (run ''node-1'' [Ctl, Ctl, Ctl, Ctl]
        (loop_entry None
          [Added (snapshot [address_on '''' ''node-1'']),
           Modified (snapshot [address_on '''' ''node-1''])]))
      = [AtCheck, AtCheck]"
  by (simp add: run_defs)

text \<open>
  Claim C2, amended. Take a sequence of Added/Modified events, each carrying a
  snapshot. Let the first one have local addresses, the first of them not the empty
  string, and let that address be among the local addresses of every later event. Then,
  however the threads are scheduled and whatever the counter of the wait group on
  entry: at most one election task is ever launched (lines 114--133), and exactly one
  once the controller has consumed the whole sequence; no election is started before
  that task exists; the context is cancelled only after a shutdown or after the
  controller has left the loop. That one task calls \<^verbatim>\<open>StartServicesLeaderElection\<close>
  for the first time in its first two steps, and again each time the call returns
  while the context is not cancelled.
\<close>

theorem launch_once:
  assumes "local_addresses nodeID first = Some le0" and "le0 \<noteq> []" and "hd le0 \<noteq> ''''"
    and "\<forall>ev \<in> set later. \<exists>le. local_addresses nodeID ev = Some le \<and> hd le0 \<in> set le"
  shows "length (tasks (run nodeID sch (loop_entry_with c anns (first # later)))) \<le> 1
    \<and> (chan (run nodeID sch (loop_entry_with c anns (first # later))) = []
        \<and> pc (run nodeID sch (loop_entry_with c anns (first # later))) \<noteq> Ensuring
       \<longrightarrow> length (tasks (run nodeID sch (loop_entry_with c anns (first # later)))) = 1)
    \<and> (tasks (run nodeID sch (loop_entry_with c anns (first # later))) = []
       \<longrightarrow> elections_started (run nodeID sch (loop_entry_with c anns (first # later))) = 0)
    \<and> (cancelled (run nodeID sch (loop_entry_with c anns (first # later)))
       \<longrightarrow> shutdown_closed (run nodeID sch (loop_entry_with c anns (first # later)))
           \<or> exitFunction_closed (run nodeID sch (loop_entry_with c anns (first # later))))
    \<and> tasks (run nodeID [Ctl, Ctl, Task 0, Task 0] (loop_entry_with c anns (first # later)))
        = [InElection]
    \<and> elections_started
         (run nodeID [Ctl, Ctl, Task 0, Task 0] (loop_entry_with c anns (first # later))) = 1
    \<and> (\<forall>s i. \<not> dead s \<and> \<not> cancelled s \<and> i < length (tasks s) \<and> tasks s ! i = InElection \<longrightarrow>
          tasks (run nodeID [Task i, Task i, Task i] s) ! i = InElection
          \<and> elections_started (run nodeID [Task i, Task i, Task i] s) = elections_started s + 1)"
proof -
  let ?evs = "first # later"
  let ?s0 = "loop_entry_with c anns ?evs"
  have h: "local_addresses nodeID (hd ?evs) = Some le0" using assms(1) by simp
  have "hd le0 \<in> set le0" using assms(2) by simp
  with assms have init: "tracking nodeID (hd le0) ?evs ?s0"
    by (auto simp: tracking_def loop_entry_with_def list_all_iff)
  have "tracking nodeID (hd le0) ?evs (run nodeID sch ?s0)"
    by (rule tracking_run [OF h assms(2) refl assms(3) init])
  then have inv: "length (tasks (run nodeID sch ?s0)) \<le> 1
    \<and> (chan (run nodeID sch ?s0) = [] \<and> pc (run nodeID sch ?s0) \<noteq> Ensuring
       \<longrightarrow> length (tasks (run nodeID sch ?s0)) = 1)
    \<and> (tasks (run nodeID sch ?s0) = [] \<longrightarrow> elections_started (run nodeID sch ?s0) = 0)
    \<and> (cancelled (run nodeID sch ?s0)
       \<longrightarrow> shutdown_closed (run nodeID sch ?s0) \<or> exitFunction_closed (run nodeID sch ?s0))"
    by (auto simp: tracking_def split: if_splits)
  from assms(1) obtain ep where
    ev: "first = Added (EndpointsObject ep) \<or> first = Modified (EndpointsObject ep)"
    and r: "resolve_spec nodeID ep = le0"
    by (auto simp: local_addresses_eq split: event.splits object.splits)
  have s1: "step nodeID Ctl ?s0 = track_first le0 (?s0\<lparr>chan := later\<rparr>)"
    using ev r assms(2)
    by (auto simp: step_eq dead_def loop_entry_with_def controller_step_def handle_event_def
        on_object_def on_snapshot_eq)
  have first_call: "tasks (run nodeID [Ctl, Ctl, Task 0, Task 0] ?s0) = [InElection]
      \<and> elections_started (run nodeID [Ctl, Ctl, Task 0, Task 0] ?s0) = 1"
    using assms(2)
    by (simp add: s1 track_first_eq)
      (simp add: step_eq dead_def controller_step_def ensure_running_def task_step_def
        loop_entry_with_def)
  have again: "tasks (run nodeID [Task i, Task i, Task i] s) ! i = InElection
      \<and> elections_started (run nodeID [Task i, Task i, Task i] s) = elections_started s + 1"
    if "\<not> dead s" and "\<not> cancelled s" and "i < length (tasks s)" and "tasks s ! i = InElection"
    for s i
    using that by (simp add: step_eq task_step_def dead_def)
  from inv first_call again show ?thesis by blast
qed

theorem launch_once_witness:
  "local_addresses ''node-1'' (Added (snapshot [address_on ''10.0.0.5'' ''node-1''])) = Some [''10.0.0.5'']
   \<and> local_addresses ''node-1''
        (Modified (snapshot [address_on ''10.0.0.5'' ''node-1'', address_on ''10.0.0.9'' ''node-2'']))
      = Some [''10.0.0.5'']
   \<and> chan (run ''node-1'' [Ctl, Ctl, Task 0, Task 0, Ctl, Ctl]
        (loop_entry None
          [Added (snapshot [address_on ''10.0.0.5'' ''node-1'']),
           Modified (snapshot [address_on ''10.0.0.5'' ''node-1'', address_on ''10.0.0.9'' ''node-2''])]))
      = []
   \<and> length (tasks (run ''node-1'' [Ctl, Ctl, Task 0, Task 0, Ctl, Ctl]
        (loop_entry None
          [Added (snapshot [address_on ''10.0.0.5'' ''node-1'']),
           Modified (snapshot [address_on ''10.0.0.5'' ''node-1'', address_on ''10.0.0.9'' ''node-2''])])))
      = 1"
  using launch_once [where nodeID = "''node-1''"
      and first = "Added (snapshot [address_on ''10.0.0.5'' ''node-1''])"
      and ?le0.0 = "[''10.0.0.5'']"
      and later = "[Modified (snapshot [address_on ''10.0.0.5'' ''node-1'', address_on ''10.0.0.9'' ''node-2''])]"
      and sch = "[Ctl, Ctl, Task 0, Task 0, Ctl, Ctl]" and c = 0 and anns = None,
      THEN conjunct2, THEN conjunct1]
  by (simp add: run_defs)

subsection \<open>Idle on empty\<close>

text \<open>
  Claim C3. When the controller receives an Added or Modified event whose snapshot has
  no local address: if an address is tracked, the step cancels the election context
  and clears \<open>lastKnownGoodEndpoint\<close>, and changes nothing else; if none is tracked,
  the step changes nothing at all (the event is consumed).
\<close>

theorem empty_snapshot_idles:
  assumes "pc s = Receiving" and "\<not> rw_stopped s" and "chan s = ev # rest"
    and "ev = Added (EndpointsObject ep) \<or> ev = Modified (EndpointsObject ep)"
    and "localendpoints nodeID ep = Inr []"
  shows "step nodeID Ctl s =
     (if lastKnownGoodEndpoint s \<noteq> ''''
      then s\<lparr>chan := rest, lastKnownGoodEndpoint := '''', cancelled := True\<rparr>
      else s\<lparr>chan := rest\<rparr>)"
  using assms
  by (auto simp: step_eq controller_step_def handle_event_def on_object_def on_snapshot_def
      cancel_def)

text \<open>Scenario C: the tracked address moves to another node.\<close>

theorem empty_snapshot_idles_witness:
  "lastKnownGoodEndpoint (run ''node-1'' [Ctl, Ctl, Task 0, Task 0]
      (loop_entry None
        [Added (snapshot [address_on ''10.0.0.5'' ''node-1'']),
         Modified (snapshot [address_on ''10.0.0.5'' ''node-2''])])) = ''10.0.0.5''
   \<and> localendpoints ''node-1'' \<lparr>Subsets = [\<lparr>Addresses = [address_on ''10.0.0.5'' ''node-2'']\<rparr>]\<rparr> = Inr []
   \<and> lastKnownGoodEndpoint (step ''node-1'' Ctl (run ''node-1'' [Ctl, Ctl, Task 0, Task 0]
      (loop_entry None
        [Added (snapshot [address_on ''10.0.0.5'' ''node-1'']),
         Modified (snapshot [address_on ''10.0.0.5'' ''node-2''])]))) = ''''
   \<and> cancelled (step ''node-1'' Ctl (run ''node-1'' [Ctl, Ctl, Task 0, Task 0]
      (loop_entry None
        [Added (snapshot [address_on ''10.0.0.5'' ''node-1'']),
         Modified (snapshot [address_on ''10.0.0.5'' ''node-2''])])))"
proof -
  define s where "s = run ''node-1'' [Ctl, Ctl, Task 0, Task 0]
      (loop_entry None
        [Added (snapshot [address_on ''10.0.0.5'' ''node-1'']),
         Modified (snapshot [address_on ''10.0.0.5'' ''node-2''])])"
  define ep where "ep = \<lparr>Subsets = [\<lparr>Addresses = [address_on ''10.0.0.5'' ''node-2'']\<rparr>]\<rparr>"
  have h1: "pc s = Receiving" and h2: "\<not> rw_stopped s"
    and h3: "chan s = [Modified (EndpointsObject ep)]"
    and h5: "localendpoints ''node-1'' ep = Inr []"
    and h6: "lastKnownGoodEndpoint s = ''10.0.0.5''"
    by (simp_all add: s_def ep_def run_defs)
  have "step ''node-1'' Ctl s = s\<lparr>chan := [], lastKnownGoodEndpoint := '''', cancelled := True\<rparr>"
    using empty_snapshot_idles [OF h1 h2 h3 _ h5] h6 by simp
  then show ?thesis using h5 h6 unfolding s_def ep_def by simp
qed

subsection \<open>The first address and the egress annotation\<close>

text \<open>
  Claim C8. When the controller receives an Added or Modified event whose snapshot has
  local addresses while no address is tracked, the step records the first of them and
  goes on to line 114. If the service's annotation \<^verbatim>\<open>kube-vip.io/egress\<close> reads
  \<^verbatim>\<open>true\<close>, the step sets \<^verbatim>\<open>kube-vip.io/active-endpoint\<close> to that address on the
  service object it holds; otherwise it leaves the annotations as they are. Apart from
  the event consumed and the wait group, nothing else changes.
\<close>

theorem first_address_staged:
  assumes "pc s = Receiving" and "\<not> rw_stopped s" and "chan s = ev # rest"
    and "ev = Added (EndpointsObject ep) \<or> ev = Modified (EndpointsObject ep)"
    and "localendpoints nodeID ep = Inr le" and "le \<noteq> []"
    and "lastKnownGoodEndpoint s = ''''"
  shows "step nodeID Ctl s =
     s\<lparr>chan := rest, lastKnownGoodEndpoint := hd le, wg := wg s + 1,
       annotations :=
         (if ann_get (annotations s) ''kube-vip.io/egress'' = ''true''
          then map_option (\<lambda>f. f(''kube-vip.io/active-endpoint'' \<mapsto> hd le)) (annotations s)
          else annotations s),
       pc := Ensuring\<rparr>
   \<and> (if ann_get (annotations s) ''kube-vip.io/egress'' = ''true''
      then ann_get (annotations (step nodeID Ctl s)) ''kube-vip.io/active-endpoint'' = hd le
      else annotations (step nodeID Ctl s) = annotations s)"
proof -
  from assms(5) have r: "resolve_spec nodeID ep = le" by (simp add: localendpoints_eq)
  have st: "step nodeID Ctl s = track_first le (s\<lparr>chan := rest\<rparr>)"
    using controller_snapshot [OF assms(1-4), of nodeID] r assms(1,6,7)
    by (simp add: step_eq on_snapshot_eq)
  show ?thesis unfolding st using assms(6)
    by (auto simp: track_first_eq ann_get_def split: option.splits)
qed

theorem first_address_staged_witness:
  "ann_get (annotations (step ''node-1'' Ctl
      (loop_entry (Some [''kube-vip.io/egress'' \<mapsto> ''true''])
        [Added (snapshot [address_on ''10.0.0.5'' ''node-1''])])))
     ''kube-vip.io/active-endpoint'' = ''10.0.0.5''
   \<and> lastKnownGoodEndpoint (step ''node-1'' Ctl
      (loop_entry (Some [''kube-vip.io/egress'' \<mapsto> ''true''])
        [Added (snapshot [address_on ''10.0.0.5'' ''node-1''])])) = ''10.0.0.5''"
  using first_address_staged [of
      "loop_entry (Some [''kube-vip.io/egress'' \<mapsto> ''true''])
        [Added (snapshot [address_on ''10.0.0.5'' ''node-1''])]"
      "Added (snapshot [address_on ''10.0.0.5'' ''node-1''])" "[]"
      "\<lparr>Subsets = [\<lparr>Addresses = [address_on ''10.0.0.5'' ''node-1'']\<rparr>]\<rparr>"
      "''node-1''" "[''10.0.0.5'']"]
  by (simp add: run_defs)

subsection \<open>Deleted\<close>

text \<open>
  Claim C4, as the specification states it, fails on this code: the return on a Deleted
  event does not stop a running election, it only cancels its context. In the first run
  the task is inside the election call when the Deleted event is handled, and it still
  is when the controller has returned and the supervisor has stopped the watcher. In
  the second run the task has passed the context test of line 119 when the Deleted
  event is handled: it starts its election after the controller has returned.
\<close>

theorem deleted_counterexample:
  "pc (run ''node-1'' [Ctl, Ctl, Task 0, Task 0, Ctl, Spv]
      (loop_entry None [Added (snapshot [address_on ''10.0.0.5'' ''node-1'']), Deleted]))
     = Returned None
   \<and> rw_stopped (run ''node-1'' [Ctl, Ctl, Task 0, Task 0, Ctl, Spv]
      (loop_entry None [Added (snapshot [address_on ''10.0.0.5'' ''node-1'']), Deleted]))
   \<and> tasks (run ''node-1'' [Ctl, Ctl, Task 0, Task 0, Ctl, Spv]
      (loop_entry None [Added (snapshot [address_on ''10.0.0.5'' ''node-1'']), Deleted]))
     = [InElection]
   \<and> pc (run ''node-1'' [Ctl, Ctl, Task 0, Ctl, Spv]
      (loop_entry None [Added (snapshot [address_on ''10.0.0.5'' ''node-1'']), Deleted]))
     = Returned None
   \<and> elections_started (run ''node-1'' [Ctl, Ctl, Task 0, Ctl, Spv]
      (loop_entry None [Added (snapshot [address_on ''10.0.0.5'' ''node-1'']), Deleted]))
     = 0
   \<and> elections_started (run ''node-1'' [Ctl, Ctl, Task 0, Ctl, Spv, Task 0]
      (loop_entry None [Added (snapshot [address_on ''10.0.0.5'' ''node-1'']), Deleted]))
     = 1
   \<and> tasks (run ''node-1'' [Ctl, Ctl, Task 0, Ctl, Spv, Task 0]
      (loop_entry None [Added (snapshot [address_on ''10.0.0.5'' ''node-1'']), Deleted]))
     = [InElection]"
  by (simp add: run_defs)

text \<open>
  Claim C4, amended. Let the controller, anywhere in a run that started at the loop's
  entry, receive a Deleted event. The step closes \<^verbatim>\<open>exitFunction\<close>, cancels the
  election context (the deferred call of line 26) and returns nil. Whatever the threads
  do afterwards, the controller reads no further event and launches no task: the events
  behind the Deleted one stay in the channel, the tracked address stays as it was, and
  the controller stays returned with nil for as long as the process lives. As soon as
  the supervisor has taken its step the retry watcher is stopped. The election is
  signalled, not awaited: the context stays cancelled, a task that tests it goes to
  the else branch of line 127, and from the return on no election is started except by
  a task that had already passed the test of line 119.
\<close>

theorem deleted_returns:
  assumes "s = run nodeID sch0 (loop_entry_with c anns evs)"
    and "pc s = Receiving" and "\<not> rw_stopped s" and "chan s = Deleted # rest"
  shows "pc (step nodeID Ctl s) = Returned None
    \<and> cancelled (step nodeID Ctl s)
    \<and> exitFunction_closed (step nodeID Ctl s)
    \<and> (\<forall>sch.
          (pc (run nodeID sch (step nodeID Ctl s)) = Returned None
           \<or> pc (run nodeID sch (step nodeID Ctl s)) = Panicked NegativeWaitGroupCounter)
          \<and> cancelled (run nodeID sch (step nodeID Ctl s))
          \<and> chan (run nodeID sch (step nodeID Ctl s)) = rest
          \<and> lastKnownGoodEndpoint (run nodeID sch (step nodeID Ctl s)) = lastKnownGoodEndpoint s
          \<and> length (tasks (run nodeID sch (step nodeID Ctl s))) = length (tasks s)
          \<and> elections_started (run nodeID sch (step nodeID Ctl s))
              \<le> elections_started s + tasks_at AtSetActive s
          \<and> (Spv \<in> set sch \<longrightarrow>
               rw_stopped (run nodeID sch (step nodeID Ctl s))
               \<or> pc (run nodeID sch (step nodeID Ctl s)) = Panicked NegativeWaitGroupCounter)
          \<and> (\<forall>i. pc (run nodeID sch (step nodeID Ctl s)) = Returned None
                \<and> i < length (tasks (run nodeID sch (step nodeID Ctl s)))
                \<and> tasks (run nodeID sch (step nodeID Ctl s)) ! i = AtCheck \<longrightarrow>
                tasks (step nodeID (Task i) (run nodeID sch (step nodeID Ctl s))) ! i = AtElseClear))"
proof -
  let ?s' = "step nodeID Ctl s"
  have st: "?s' = s\<lparr>chan := rest, exitFunction_closed := True, cancelled := True, pc := Returned None\<rparr>"
    using assms(2-4)
    by (simp add: step_eq controller_step_def handle_event_def close_and_return_def
        return_with_def cancel_def)
  have "supervisor (loop_entry_with c anns evs) = Finished \<longrightarrow> rw_stopped (loop_entry_with c anns evs)"
    by (simp add: loop_entry_with_def)
  then have "supervisor s = Finished \<longrightarrow> rw_stopped s"
    unfolding assms(1) by (rule supervisor_run_inv)
  then have inv: "supervisor ?s' = Finished \<longrightarrow> rw_stopped ?s'" by (simp add: st)
  have cl: "exitFunction_closed ?s'" and ca: "cancelled ?s'" and pc: "pc ?s' = Returned None"
    and p: "pending ?s' = pending s"
    by (simp_all add: st pending_def tasks_at_def)
  have after: "(pc (run nodeID sch ?s') = Returned None
           \<or> pc (run nodeID sch ?s') = Panicked NegativeWaitGroupCounter)
          \<and> cancelled (run nodeID sch ?s')
          \<and> chan (run nodeID sch ?s') = rest
          \<and> lastKnownGoodEndpoint (run nodeID sch ?s') = lastKnownGoodEndpoint s
          \<and> length (tasks (run nodeID sch ?s')) = length (tasks s)
          \<and> elections_started (run nodeID sch ?s') \<le> elections_started s + tasks_at AtSetActive s
          \<and> (Spv \<in> set sch \<longrightarrow>
               rw_stopped (run nodeID sch ?s')
               \<or> pc (run nodeID sch ?s') = Panicked NegativeWaitGroupCounter)
          \<and> (\<forall>i. pc (run nodeID sch ?s') = Returned None
                \<and> i < length (tasks (run nodeID sch ?s'))
                \<and> tasks (run nodeID sch ?s') ! i = AtCheck \<longrightarrow>
                tasks (step nodeID (Task i) (run nodeID sch ?s')) ! i = AtElseClear)" for sch
  proof -
    let ?S = "run nodeID sch ?s'"
    from pc have h: "pc ?s' = Returned None \<or> pc ?s' = Panicked NegativeWaitGroupCounter" by simp
    note r = returned_run [OF h, of nodeID sch]
    have c: "cancelled ?S" using ca by (rule cancelled_run)
    from pending_run [OF ca, of nodeID sch] p
    have e: "elections_started ?S \<le> elections_started s + tasks_at AtSetActive s"
      by (simp add: pending_def)
    have w: "rw_stopped ?S \<or> pc ?S = Panicked NegativeWaitGroupCounter" if "Spv \<in> set sch"
      using supervisor_stops_watch [OF cl inv that, of nodeID] r by (auto simp: dead_def)
    have t: "tasks (step nodeID (Task i) ?S) ! i = AtElseClear"
      if "pc ?S = Returned None" and "i < length (tasks ?S)" and "tasks ?S ! i = AtCheck" for i
      using that c by (simp add: step_eq task_step_def)
    from r c e w t show ?thesis by (simp add: st)
  qed
  with cl ca pc show ?thesis by simp
qed

text \<open>Scenario D, with one more event behind the Deleted one.\<close>

theorem deleted_returns_witness:
  "pc (run ''node-1'' [Ctl, Ctl, Task 0, Task 0, Ctl, Spv, Ctl, Task 0]
      (loop_entry None
        [Added (snapshot [address_on ''10.0.0.5'' ''node-1'']), Deleted,
         Modified (snapshot [address_on ''10.0.0.6'' ''node-1''])])) = Returned None
   \<and> chan (run ''node-1'' [Ctl, Ctl, Task 0, Task 0, Ctl, Spv, Ctl, Task 0]
      (loop_entry None
        [Added (snapshot [address_on ''10.0.0.5'' ''node-1'']), Deleted,
         Modified (snapshot [address_on ''10.0.0.6'' ''node-1''])]))
     = [Modified (snapshot [address_on ''10.0.0.6'' ''node-1''])]
   \<and> rw_stopped (run ''node-1'' [Ctl, Ctl, Task 0, Task 0, Ctl, Spv, Ctl, Task 0]
      (loop_entry None
        [Added (snapshot [address_on ''10.0.0.5'' ''node-1'']), Deleted,
         Modified (snapshot [address_on ''10.0.0.6'' ''node-1''])]))"
proof -
  define evs where "evs = [Added (snapshot [address_on ''10.0.0.5'' ''node-1'']), Deleted,
         Modified (snapshot [address_on ''10.0.0.6'' ''node-1''])]"
  define s where "s = run ''node-1'' [Ctl, Ctl, Task 0, Task 0] (loop_entry_with 0 None evs)"
  have h: "pc s = Receiving" "\<not> rw_stopped s"
    "chan s = Deleted # [Modified (snapshot [address_on ''10.0.0.6'' ''node-1''])]"
    by (simp_all add: s_def evs_def run_defs)
  have e: "run ''node-1'' [Ctl, Ctl, Task 0, Task 0, Ctl, Spv, Ctl, Task 0] (loop_entry None evs)
    = run ''node-1'' [Spv, Ctl, Task 0] (step ''node-1'' Ctl s)"
    by (simp add: s_def loop_entry_def)
  have alive: "pc (run ''node-1'' [Spv, Ctl, Task 0] (step ''node-1'' Ctl s)) = Returned None"
    by (simp add: s_def evs_def run_defs)
  from deleted_returns [OF s_def h, THEN conjunct2, THEN conjunct2, THEN conjunct2,
      THEN spec, of "[Spv, Ctl, Task 0]"] alive
  have
    "pc (run ''node-1'' [Spv, Ctl, Task 0] (step ''node-1'' Ctl s)) = Returned None
     \<and> chan (run ''node-1'' [Spv, Ctl, Task 0] (step ''node-1'' Ctl s))
        = [Modified (snapshot [address_on ''10.0.0.6'' ''node-1''])]
     \<and> rw_stopped (run ''node-1'' [Spv, Ctl, Task 0] (step ''node-1'' Ctl s))"
    by (simp del: run.simps)
  then show ?thesis unfolding e [unfolded evs_def] .
qed

subsection \<open>Events that cannot be read\<close>

lemma chan_step: "set (chan (step nodeID a s)) \<subseteq> set (chan s)"
  by (rule step_cases)
    (auto simp: ctl_simps task_step_def supervisor_step_def
      split: ctl_pc.splits list.splits event.splits object.splits task_pc.splits)

lemma failure_step:
  assumes "pc (step nodeID a s) = Returned (Some e)" and "pc s \<noteq> Returned (Some e)"
  shows "\<exists>ev \<in> set (chan s). ev = Added OtherObject \<or> ev = Modified OtherObject"
proof (cases "dead s")
  case True
  with assms show ?thesis by (simp add: step_def)
next
  case False
  show ?thesis
  proof (cases a)
    case Ctl
    with assms False show ?thesis
      by (auto simp: step_eq ctl_simps
          split: ctl_pc.splits list.splits event.splits object.splits if_splits)
  next
    case (Task i)
    with assms False show ?thesis
      by (auto simp: step_eq task_step_def split: task_pc.splits if_splits)
  next
    case Spv
    with assms False show ?thesis
      by (auto simp: step_eq supervisor_step_def cancel_def split: if_splits)
  next
    case Shutdown
    with assms False show ?thesis by (simp add: step_eq)
  qed
qed

lemma failure_run:
  "pc (run nodeID sch s) = Returned (Some e) \<Longrightarrow> pc s \<noteq> Returned (Some e) \<Longrightarrow>
   \<exists>ev \<in> set (chan s). ev = Added OtherObject \<or> ev = Modified OtherObject"
proof (induction sch arbitrary: s)
  case Nil
  then show ?case by simp
next
  case (Cons a sch)
  show ?case
  proof (cases "pc (step nodeID a s) = Returned (Some e)")
    case True
    from failure_step [OF True Cons.prems(2)] show ?thesis .
  next
    case False
    from Cons.prems(1) have "pc (run nodeID sch (step nodeID a s)) = Returned (Some e)" by simp
    from Cons.IH [OF this False] chan_step [of nodeID a s] show ?thesis by blast
  qed
qed

text \<open>
  While the controller is in its loop \<^verbatim>\<open>exitFunction\<close> is open, and the watcher is
  stopped only by the supervisor, which needs one of its two channels closed.
\<close>

lemma exit_open_step:
  assumes "exitFunction_closed s \<longrightarrow> pc s \<noteq> Receiving \<and> pc s \<noteq> Ensuring"
  shows "exitFunction_closed (step nodeID a s) \<longrightarrow>
    pc (step nodeID a s) \<noteq> Receiving \<and> pc (step nodeID a s) \<noteq> Ensuring"
  by (rule step_cases)
    (use assms in \<open>auto simp: ctl_simps task_step_def supervisor_step_def
      split: ctl_pc.splits list.splits event.splits object.splits task_pc.splits if_splits\<close>)

lemma exit_open_run:
  "exitFunction_closed s \<longrightarrow> pc s \<noteq> Receiving \<and> pc s \<noteq> Ensuring \<Longrightarrow>
   exitFunction_closed (run nodeID sch s) \<longrightarrow>
     pc (run nodeID sch s) \<noteq> Receiving \<and> pc (run nodeID sch s) \<noteq> Ensuring"
proof (induction sch arbitrary: s)
  case Nil
  then show ?case by simp
next
  case (Cons a sch)
  from Cons.IH [OF exit_open_step [OF Cons.prems, of nodeID a]] show ?case by simp
qed

lemma watching_step:
  assumes "rw_stopped s \<or> supervisor s = Waiting"
  shows "rw_stopped (step nodeID a s) \<or> supervisor (step nodeID a s) = Waiting"
  by (rule step_cases)
    (use assms in \<open>auto simp: ctl_simps task_step_def supervisor_step_def
      split: ctl_pc.splits list.splits event.splits object.splits task_pc.splits\<close>)

lemma watching_run:
  "rw_stopped s \<or> supervisor s = Waiting \<Longrightarrow>
   rw_stopped (run nodeID sch s) \<or> supervisor (run nodeID sch s) = Waiting"
proof (induction sch arbitrary: s)
  case Nil
  then show ?case by simp
next
  case (Cons a sch)
  from Cons.IH [OF watching_step [OF Cons.prems, of nodeID a]] show ?case by simp
qed

text \<open>
  After a return that left \<^verbatim>\<open>exitFunction\<close> open nobody closes it, and without a
  shutdown the supervisor waits and the watcher runs.
\<close>

lemma left_open_step:
  assumes "pc s = Returned r \<or> pc s = Panicked NegativeWaitGroupCounter"
    and "\<not> exitFunction_closed s"
  shows "\<not> exitFunction_closed (step nodeID a s)
    \<and> (\<not> shutdown_closed s \<and> a \<noteq> Shutdown \<and> \<not> rw_stopped s \<and> supervisor s = Waiting \<longrightarrow>
         \<not> shutdown_closed (step nodeID a s) \<and> \<not> rw_stopped (step nodeID a s)
         \<and> supervisor (step nodeID a s) = Waiting)"
proof (cases "dead s")
  case True
  with assms(2) show ?thesis by (simp add: step_def)
next
  case False
  with assms(1) have r: "pc s = Returned r" by auto
  show ?thesis
  proof (cases a)
    case Ctl
    with False r assms(2) show ?thesis by (simp add: step_eq controller_step_def)
  next
    case (Task i)
    with False assms(2) show ?thesis
      by (auto simp: step_eq task_step_def split: task_pc.splits)
  next
    case Spv
    with False assms(2) show ?thesis by (simp add: step_eq supervisor_step_def cancel_def)
  next
    case Shutdown
    with False assms(2) show ?thesis by (simp add: step_eq)
  qed
qed

lemma left_open_run:
  "pc s = Returned r \<or> pc s = Panicked NegativeWaitGroupCounter \<Longrightarrow> \<not> exitFunction_closed s \<Longrightarrow>
   \<not> exitFunction_closed (run nodeID sch s)
   \<and> (\<not> shutdown_closed s \<and> Shutdown \<notin> set sch \<and> \<not> rw_stopped s \<and> supervisor s = Waiting \<longrightarrow>
        \<not> rw_stopped (run nodeID sch s) \<and> supervisor (run nodeID sch s) = Waiting)"
proof (induction sch arbitrary: s)
  case Nil
  then show ?case by simp
next
  case (Cons a sch)
  note st = left_open_step [OF Cons.prems, of nodeID a]
  from returned_step [OF Cons.prems(1), of nodeID a]
  have "pc (step nodeID a s) = Returned r \<or> pc (step nodeID a s) = Panicked NegativeWaitGroupCounter"
    by simp
  from Cons.IH [OF this] st show ?case by auto
qed

text \<open>A shutdown does stop the watcher, at the supervisor's next step.\<close>

lemma shutdown_stops_watch:
  assumes "supervisor s = Finished \<longrightarrow> rw_stopped s"
  shows "rw_stopped (run nodeID [Shutdown, Spv] s) \<or> dead (run nodeID [Shutdown, Spv] s)"
proof (cases "dead s")
  case True
  then show ?thesis by (simp add: step_def)
next
  case False
  then have "\<not> dead (s\<lparr>shutdown_closed := True\<rparr>)" by (simp add: dead_def)
  with False assms show ?thesis
    by (cases "supervisor s") (simp_all add: step_eq supervisor_step_def cancel_def)
qed

text \<open>
  Claim C6. Let the controller, anywhere in a run that started at the loop's entry,
  receive an Added or Modified event whose object is not an endpoint snapshot. The step
  cancels the election context and returns the parse error, and in every continuation
  the controller stays returned with that error for as long as the process lives, and
  the events behind the unreadable one stay in the channel. But the step does not stop
  everything: lines 70--73 return without the \<^verbatim>\<open>close(exitFunction)\<close> that the
  other two returns of the loop do (lines 145 and 154), so \<^verbatim>\<open>exitFunction\<close> stays
  open for good, and unless the manager shuts down the supervisor goroutine waits
  forever and the retry watcher is never stopped; a shutdown stops it at the
  supervisor's next step. The election is signalled: a task that tests the context
  goes to the else branch of line 127. Last, a run from the loop's entry ends with an
  error only if its events hold such an unreadable one: a shutdown, a Deleted event and
  the closing of the channel all end the loop with nil.
\<close>

theorem parse_failure_leaves_watcher:
  assumes "s = run nodeID sch0 (loop_entry_with c anns evs)"
    and "pc s = Receiving" and "\<not> rw_stopped s" and "chan s = ev # rest"
    and "ev = Added OtherObject \<or> ev = Modified OtherObject"
  shows "pc (step nodeID Ctl s) = Returned (Some ParseFailure)
    \<and> cancelled (step nodeID Ctl s)
    \<and> \<not> exitFunction_closed (step nodeID Ctl s)
    \<and> \<not> rw_stopped (step nodeID Ctl s)
    \<and> supervisor (step nodeID Ctl s) = Waiting
    \<and> (\<forall>sch.
          (pc (run nodeID sch (step nodeID Ctl s)) = Returned (Some ParseFailure)
           \<or> pc (run nodeID sch (step nodeID Ctl s)) = Panicked NegativeWaitGroupCounter)
          \<and> cancelled (run nodeID sch (step nodeID Ctl s))
          \<and> chan (run nodeID sch (step nodeID Ctl s)) = rest
          \<and> lastKnownGoodEndpoint (run nodeID sch (step nodeID Ctl s)) = lastKnownGoodEndpoint s
          \<and> \<not> exitFunction_closed (run nodeID sch (step nodeID Ctl s))
          \<and> (\<not> shutdown_closed s \<and> Shutdown \<notin> set sch \<longrightarrow>
               \<not> rw_stopped (run nodeID sch (step nodeID Ctl s))
               \<and> supervisor (run nodeID sch (step nodeID Ctl s)) = Waiting)
          \<and> (rw_stopped (run nodeID [Shutdown, Spv] (run nodeID sch (step nodeID Ctl s)))
               \<or> pc (run nodeID [Shutdown, Spv] (run nodeID sch (step nodeID Ctl s)))
                   = Panicked NegativeWaitGroupCounter)
          \<and> (\<forall>i. pc (run nodeID sch (step nodeID Ctl s)) = Returned (Some ParseFailure)
                \<and> i < length (tasks (run nodeID sch (step nodeID Ctl s)))
                \<and> tasks (run nodeID sch (step nodeID Ctl s)) ! i = AtCheck \<longrightarrow>
                tasks (step nodeID (Task i) (run nodeID sch (step nodeID Ctl s))) ! i = AtElseClear))
    \<and> (\<forall>sch' c' anns' evs' e.
          pc (run nodeID sch' (loop_entry_with c' anns' evs')) = Returned (Some e) \<longrightarrow>
          (\<exists>ev' \<in> set evs'. ev' = Added OtherObject \<or> ev' = Modified OtherObject))"
proof -
  let ?s' = "step nodeID Ctl s"
  have st: "?s' = s\<lparr>chan := rest, cancelled := True, pc := Returned (Some ParseFailure)\<rparr>"
    using assms(2-5)
    by (auto simp: step_eq controller_step_def handle_event_def on_object_def
        return_with_def cancel_def)
  have "exitFunction_closed (loop_entry_with c anns evs) \<longrightarrow>
      pc (loop_entry_with c anns evs) \<noteq> Receiving \<and> pc (loop_entry_with c anns evs) \<noteq> Ensuring"
    by (simp add: loop_entry_with_def)
  then have "exitFunction_closed s \<longrightarrow> pc s \<noteq> Receiving \<and> pc s \<noteq> Ensuring"
    unfolding assms(1) by (rule exit_open_run)
  with assms(2) have op: "\<not> exitFunction_closed s" by simp
  have "rw_stopped (loop_entry_with c anns evs) \<or> supervisor (loop_entry_with c anns evs) = Waiting"
    by (simp add: loop_entry_with_def)
  then have "rw_stopped s \<or> supervisor s = Waiting"
    unfolding assms(1) by (rule watching_run)
  with assms(3) have wt: "supervisor s = Waiting" by simp
  have ca: "cancelled ?s'" and pc: "pc ?s' = Returned (Some ParseFailure)"
    and op': "\<not> exitFunction_closed ?s'" and rw': "\<not> rw_stopped ?s'"
    and wt': "supervisor ?s' = Waiting" and sh': "shutdown_closed ?s' = shutdown_closed s"
    using op wt assms(3) by (simp_all add: st)
  have after: "(pc (run nodeID sch ?s') = Returned (Some ParseFailure)
           \<or> pc (run nodeID sch ?s') = Panicked NegativeWaitGroupCounter)
          \<and> cancelled (run nodeID sch ?s')
          \<and> chan (run nodeID sch ?s') = rest
          \<and> lastKnownGoodEndpoint (run nodeID sch ?s') = lastKnownGoodEndpoint s
          \<and> \<not> exitFunction_closed (run nodeID sch ?s')
          \<and> (\<not> shutdown_closed s \<and> Shutdown \<notin> set sch \<longrightarrow>
               \<not> rw_stopped (run nodeID sch ?s')
               \<and> supervisor (run nodeID sch ?s') = Waiting)
          \<and> (rw_stopped (run nodeID [Shutdown, Spv] (run nodeID sch ?s'))
               \<or> pc (run nodeID [Shutdown, Spv] (run nodeID sch ?s'))
                   = Panicked NegativeWaitGroupCounter)
          \<and> (\<forall>i. pc (run nodeID sch ?s') = Returned (Some ParseFailure)
                \<and> i < length (tasks (run nodeID sch ?s'))
                \<and> tasks (run nodeID sch ?s') ! i = AtCheck \<longrightarrow>
                tasks (step nodeID (Task i) (run nodeID sch ?s')) ! i = AtElseClear)" for sch
  proof -
    let ?S = "run nodeID sch ?s'"
    from pc have h: "pc ?s' = Returned (Some ParseFailure) \<or> pc ?s' = Panicked NegativeWaitGroupCounter"
      by simp
    note r = returned_run [OF h, of nodeID sch]
    have c: "cancelled ?S" using ca by (rule cancelled_run)
    from left_open_run [OF h op', of nodeID sch] rw' wt' sh'
    have l: "\<not> exitFunction_closed ?S
      \<and> (\<not> shutdown_closed s \<and> Shutdown \<notin> set sch \<longrightarrow>
           \<not> rw_stopped ?S \<and> supervisor ?S = Waiting)"
      by simp
    from wt' have "supervisor ?s' = Finished \<longrightarrow> rw_stopped ?s'" by simp
    then have inv: "supervisor ?S = Finished \<longrightarrow> rw_stopped ?S" by (rule supervisor_run_inv)
    from r have "pc ?S = Returned (Some ParseFailure) \<or> pc ?S = Panicked NegativeWaitGroupCounter"
      by simp
    from returned_run [OF this, of nodeID "[Shutdown, Spv]"] shutdown_stops_watch [OF inv, of nodeID]
    have w: "rw_stopped (run nodeID [Shutdown, Spv] ?S)
        \<or> pc (run nodeID [Shutdown, Spv] ?S) = Panicked NegativeWaitGroupCounter"
      by (auto simp: dead_def simp del: run.simps)
    have t: "tasks (step nodeID (Task i) ?S) ! i = AtElseClear"
      if "pc ?S = Returned (Some ParseFailure)" and "i < length (tasks ?S)"
        and "tasks ?S ! i = AtCheck" for i
      using that c by (simp add: step_eq task_step_def)
    from r c l w t show ?thesis by (simp add: st del: run.simps)
  qed
  have only: "\<exists>ev' \<in> set evs'. ev' = Added OtherObject \<or> ev' = Modified OtherObject"
    if "pc (run nodeID sch' (loop_entry_with c' anns' evs')) = Returned (Some e)"
    for sch' c' anns' evs' e
    using failure_run [OF that] by (simp add: loop_entry_with_def)
  from ca pc op' rw' wt' after only show ?thesis by blast
qed

text \<open>
  The failing run: the election runs for 10.0.0.5 when an unreadable Modified event
  arrives. The controller returns the error; the supervisor is scheduled twice and the
  task once more, and still the watcher is not stopped, \<^verbatim>\<open>exitFunction\<close> is open and
  the supervisor waits.
\<close>

theorem parse_failure_leaves_watcher_witness:
  "pc (run ''node-1'' [Ctl, Ctl, Task 0, Task 0, Ctl, Spv, Task 0, Spv, Ctl]
      (loop_entry None
        [Added (snapshot [address_on ''10.0.0.5'' ''node-1'']), Modified OtherObject,
         Modified (snapshot [address_on ''10.0.0.6'' ''node-1''])])) = Returned (Some ParseFailure)
   \<and> cancelled (run ''node-1'' [Ctl, Ctl, Task 0, Task 0, Ctl, Spv, Task 0, Spv, Ctl]
      (loop_entry None
        [Added (snapshot [address_on ''10.0.0.5'' ''node-1'']), Modified OtherObject,
         Modified (snapshot [address_on ''10.0.0.6'' ''node-1''])]))
   \<and> chan (run ''node-1'' [Ctl, Ctl, Task 0, Task 0, Ctl, Spv, Task 0, Spv, Ctl]
      (loop_entry None
        [Added (snapshot [address_on ''10.0.0.5'' ''node-1'']), Modified OtherObject,
         Modified (snapshot [address_on ''10.0.0.6'' ''node-1''])]))
     = [Modified (snapshot [address_on ''10.0.0.6'' ''node-1''])]
   \<and> \<not> exitFunction_closed (run ''node-1'' [Ctl, Ctl, Task 0, Task 0, Ctl, Spv, Task 0, Spv, Ctl]
      (loop_entry None
        [Added (snapshot [address_on ''10.0.0.5'' ''node-1'']), Modified OtherObject,
         Modified (snapshot [address_on ''10.0.0.6'' ''node-1''])]))
   \<and> \<not> rw_stopped (run ''node-1'' [Ctl, Ctl, Task 0, Task 0, Ctl, Spv, Task 0, Spv, Ctl]
      (loop_entry None
        [Added (snapshot [address_on ''10.0.0.5'' ''node-1'']), Modified OtherObject,
         Modified (snapshot [address_on ''10.0.0.6'' ''node-1''])]))
   \<and> supervisor (run ''node-1'' [Ctl, Ctl, Task 0, Task 0, Ctl, Spv, Task 0, Spv, Ctl]
      (loop_entry None
        [Added (snapshot [address_on ''10.0.0.5'' ''node-1'']), Modified OtherObject,
         Modified (snapshot [address_on ''10.0.0.6'' ''node-1''])])) = Waiting"
proof -
  define evs where "evs = [Added (snapshot [address_on ''10.0.0.5'' ''node-1'']), Modified OtherObject,
         Modified (snapshot [address_on ''10.0.0.6'' ''node-1''])]"
  define s where "s = run ''node-1'' [Ctl, Ctl, Task 0, Task 0] (loop_entry_with 0 None evs)"
  have h: "pc s = Receiving" "\<not> rw_stopped s"
    "chan s = Modified OtherObject # [Modified (snapshot [address_on ''10.0.0.6'' ''node-1''])]"
    "Modified OtherObject = Added OtherObject \<or> Modified OtherObject = Modified OtherObject"
    by (simp_all add: s_def evs_def run_defs)
  have sh: "\<not> shutdown_closed s \<and> Shutdown \<notin> set [Spv, Task 0, Spv, Ctl]"
    by (simp add: s_def evs_def run_defs)
  have e: "run ''node-1'' [Ctl, Ctl, Task 0, Task 0, Ctl, Spv, Task 0, Spv, Ctl] (loop_entry None evs)
    = run ''node-1'' [Spv, Task 0, Spv, Ctl] (step ''node-1'' Ctl s)"
    by (simp add: s_def loop_entry_def)
  have alive: "pc (run ''node-1'' [Spv, Task 0, Spv, Ctl] (step ''node-1'' Ctl s))
    \<noteq> Panicked NegativeWaitGroupCounter"
    by (simp add: s_def evs_def run_defs)
  from parse_failure_leaves_watcher [OF s_def h, THEN conjunct2, THEN conjunct2, THEN conjunct2,
      THEN conjunct2, THEN conjunct2, THEN conjunct1, THEN spec, of "[Spv, Task 0, Spv, Ctl]"]
    sh alive
  have
    "pc (run ''node-1'' [Spv, Task 0, Spv, Ctl] (step ''node-1'' Ctl s)) = Returned (Some ParseFailure)
     \<and> cancelled (run ''node-1'' [Spv, Task 0, Spv, Ctl] (step ''node-1'' Ctl s))
     \<and> chan (run ''node-1'' [Spv, Task 0, Spv, Ctl] (step ''node-1'' Ctl s))
        = [Modified (snapshot [address_on ''10.0.0.6'' ''node-1''])]
     \<and> \<not> exitFunction_closed (run ''node-1'' [Spv, Task 0, Spv, Ctl] (step ''node-1'' Ctl s))
     \<and> \<not> rw_stopped (run ''node-1'' [Spv, Task 0, Spv, Ctl] (step ''node-1'' Ctl s))
     \<and> supervisor (run ''node-1'' [Spv, Task 0, Spv, Ctl] (step ''node-1'' Ctl s)) = Waiting"
    by (simp del: run.simps)
  then show ?thesis unfolding e [unfolded evs_def] .
qed

subsection \<open>The loss of the tracked address\<close>

text \<open>
  When the controller receives an Added or Modified event whose local addresses do not
  include the tracked address, the step cancels the election context, and it clears
  \<open>lastKnownGoodEndpoint\<close> only when the event has no local address at all. The
  context is the only one that \<^verbatim>\<open>watchEndpoint\<close> creates: whatever events follow and
  however the threads are scheduled, it stays cancelled, and no election is started
  from then on except by a task that had already passed the context test of line 119
  when the step was taken.
\<close>

lemma loss_cancels_for_good:
  assumes "pc s = Receiving" and "\<not> rw_stopped s" and "chan s = ev # rest"
    and "ev = Added (EndpointsObject ep) \<or> ev = Modified (EndpointsObject ep)"
    and "localendpoints nodeID ep = Inr le"
    and "lastKnownGoodEndpoint s \<noteq> ''''" and "lastKnownGoodEndpoint s \<notin> set le"
  shows "cancelled (step nodeID Ctl s)
    \<and> (if le = [] then lastKnownGoodEndpoint (step nodeID Ctl s) = ''''
       else pc (step nodeID Ctl s) = Ensuring)
    \<and> (\<forall>sch. cancelled (run nodeID sch (step nodeID Ctl s))
          \<and> elections_started (run nodeID sch (step nodeID Ctl s))
              \<le> elections_started s + tasks_at AtSetActive s)"
proof -
  let ?s' = "step nodeID Ctl s"
  from assms(5) have r: "resolve_spec nodeID ep = le" by (simp add: localendpoints_eq)
  have st: "?s' = (if le = [] then s\<lparr>chan := rest, lastKnownGoodEndpoint := '''', cancelled := True\<rparr>
      else s\<lparr>chan := rest, cancelled := True, pc := Ensuring\<rparr>)"
    using controller_snapshot [OF assms(1-4), of nodeID] r assms(1,6,7)
    by (simp add: step_eq on_snapshot_eq)
  then have ca: "cancelled ?s'" and p: "pending ?s' = pending s"
    by (simp_all add: pending_def tasks_at_def)
  have "\<forall>sch. cancelled (run nodeID sch ?s')
          \<and> elections_started (run nodeID sch ?s') \<le> elections_started s + tasks_at AtSetActive s"
  proof
    fix sch
    from pending_run [OF ca, of nodeID sch] p
    have "elections_started (run nodeID sch ?s') \<le> elections_started s + tasks_at AtSetActive s"
      by (simp add: pending_def)
    with cancelled_run [OF ca, of nodeID sch]
    show "cancelled (run nodeID sch ?s')
          \<and> elections_started (run nodeID sch ?s') \<le> elections_started s + tasks_at AtSetActive s"
      by simp
  qed
  with ca st show ?thesis by simp
qed

text \<open>
  Claim C1 says that when the tracked address disappears from a later snapshot the
  election is stopped and \<open>lastKnownGoodEndpoint\<close> cleared, and that the next snapshot
  with a local address starts a new election under a fresh cancellation token. The code
  does not do that, as two runs on node-1 show. In the first, 10.0.0.5 is tracked and
  its election runs when a snapshot arrives in which 10.0.0.6 has replaced it: the
  context is cancelled, but \<open>lastKnownGoodEndpoint\<close> still reads 10.0.0.5. In the
  second, the snapshot after 10.0.0.5 has no local address: the context is cancelled and
  \<open>lastKnownGoodEndpoint\<close> cleared, the election returns and its task leaves; then a
  snapshot with 10.0.0.6 arrives, the address is recorded and a task is launched, which
  finds the one and only context cancelled and leaves without an election. When that
  run is over one election was started in all, the one before the loss.
\<close>

theorem loss_never_restarts:
  "lastKnownGoodEndpoint (run ''node-1'' [Ctl, Ctl, Task 0, Task 0, Ctl]
      (loop_entry None
        [Added (snapshot [address_on ''10.0.0.5'' ''node-1'']),
         Modified (snapshot [address_on ''10.0.0.6'' ''node-1''])])) = ''10.0.0.5''
   \<and> cancelled (run ''node-1'' [Ctl, Ctl, Task 0, Task 0, Ctl]
      (loop_entry None
        [Added (snapshot [address_on ''10.0.0.5'' ''node-1'']),
         Modified (snapshot [address_on ''10.0.0.6'' ''node-1''])]))
   \<and> elections_started (run ''node-1'' [Ctl, Ctl, Task 0, Task 0, Ctl]
      (loop_entry None
        [Added (snapshot [address_on ''10.0.0.5'' ''node-1'']),
         Modified (snapshot [address_on ''10.0.0.5'' ''node-2'']),
         Modified (snapshot [address_on ''10.0.0.6'' ''node-1''])])) = 1
   \<and> lastKnownGoodEndpoint (run ''node-1'' [Ctl, Ctl, Task 0, Task 0, Ctl]
      (loop_entry None
        [Added (snapshot [address_on ''10.0.0.5'' ''node-1'']),
         Modified (snapshot [address_on ''10.0.0.5'' ''node-2'']),
         Modified (snapshot [address_on ''10.0.0.6'' ''node-1''])])) = ''''
   \<and> lastKnownGoodEndpoint (run ''node-1''
        [Ctl, Ctl, Task 0, Task 0, Ctl, Task 0, Task 0, Task 0, Task 0,
         Ctl, Ctl, Task 1, Task 1, Task 1, Ctl, Spv]
      (loop_entry None
        [Added (snapshot [address_on ''10.0.0.5'' ''node-1'']),
         Modified (snapshot [address_on ''10.0.0.5'' ''node-2'']),
         Modified (snapshot [address_on ''10.0.0.6'' ''node-1''])])) = ''10.0.0.6''
   \<and> tasks (run ''node-1''
        [Ctl, Ctl, Task 0, Task 0, Ctl, Task 0, Task 0, Task 0, Task 0,
         Ctl, Ctl, Task 1, Task 1, Task 1, Ctl, Spv]
      (loop_entry None
        [Added (snapshot [address_on ''10.0.0.5'' ''node-1'']),
         Modified (snapshot [address_on ''10.0.0.5'' ''node-2'']),
         Modified (snapshot [address_on ''10.0.0.6'' ''node-1''])])) = [Exited, Exited]
   \<and> elections_started (run ''node-1''
        [Ctl, Ctl, Task 0, Task 0, Ctl, Task 0, Task 0, Task 0, Task 0,
         Ctl, Ctl, Task 1, Task 1, Task 1, Ctl, Spv]
      (loop_entry None
        [Added (snapshot [address_on ''10.0.0.5'' ''node-1'']),
         Modified (snapshot [address_on ''10.0.0.5'' ''node-2'']),
         Modified (snapshot [address_on ''10.0.0.6'' ''node-1''])])) = 1
   \<and> pc (run ''node-1''
        [Ctl, Ctl, Task 0, Task 0, Ctl, Task 0, Task 0, Task 0, Task 0,
         Ctl, Ctl, Task 1, Task 1, Task 1, Ctl, Spv]
      (loop_entry None
        [Added (snapshot [address_on ''10.0.0.5'' ''node-1'']),
         Modified (snapshot [address_on ''10.0.0.5'' ''node-2'']),
         Modified (snapshot [address_on ''10.0.0.6'' ''node-1''])])) = Returned None"
  by (simp add: run_defs)

subsection \<open>Elections side by side\<close>

text \<open>
  Claim C9, as the specification states it, fails on this code. In the first run the
  address 10.0.0.5 is tracked and its task is inside the election call when a snapshot
  without local addresses arrives: the controller cancels and is back at the channel
  while the task is still inside the call, so the stop has returned before the task has
  left. In the second run the controller handles two snapshots before the first task is
  scheduled: it reads \<^verbatim>\<open>electionActive\<close> as false both times and launches a second
  task while the first has not left.
\<close>

theorem overlap_counterexample:
  "pc (run ''node-1'' [Ctl, Ctl, Task 0, Task 0, Ctl]
      (loop_entry None
        [Added (snapshot [address_on ''10.0.0.5'' ''node-1'']),
         Modified (snapshot [address_on ''10.0.0.5'' ''node-2''])])) = Receiving
   \<and> cancelled (run ''node-1'' [Ctl, Ctl, Task 0, Task 0, Ctl]
      (loop_entry None
        [Added (snapshot [address_on ''10.0.0.5'' ''node-1'']),
         Modified (snapshot [address_on ''10.0.0.5'' ''node-2''])]))
   \<and> tasks (run ''node-1'' [Ctl, Ctl, Task 0, Task 0, Ctl]
      (loop_entry None
        [Added (snapshot [address_on ''10.0.0.5'' ''node-1'']),
         Modified (snapshot [address_on ''10.0.0.5'' ''node-2''])])) = [InElection]
   \<and> tasks (run ''node-1'' [Ctl, Ctl, Ctl, Ctl]
      (loop_entry None
        [Added (snapshot [address_on ''10.0.0.5'' ''node-1'']),
         Modified (snapshot [address_on ''10.0.0.6'' ''node-1''])])) = [AtCheck, AtCheck]
   \<and> live_tasks (run ''node-1'' [Ctl, Ctl, Ctl, Ctl]
      (loop_entry None
        [Added (snapshot [address_on ''10.0.0.5'' ''node-1'']),
         Modified (snapshot [address_on ''10.0.0.6'' ''node-1''])])) = 2"
  by (simp add: run_defs live_tasks_def)

text \<open>
  Claim C9, amended. Provided that no local address of any event is the empty string,
  in every interleaving of the controller, the supervisor and the tasks, whatever the
  counter of the wait group on entry, at every moment at most one task is at or inside
  the call of \<^verbatim>\<open>StartServicesLeaderElection\<close>. Stopping is the cancellation of the context and
  does not wait: a step of the controller leaves every task where it is (it can only
  launch one more), and once the context is cancelled a task that tests it starts no
  election: it goes on to \<^verbatim>\<open>wg.Done()\<close> at line 131, and there it leaves if the
  counter of the wait group is positive.
\<close>

theorem one_election_at_a_time:
  assumes "\<forall>ev \<in> set evs. \<forall>le. local_addresses nodeID ev = Some le \<longrightarrow> '''' \<notin> set le"
  shows "tasks_at AtSetActive (run nodeID sch (loop_entry_with c anns evs))
       + tasks_at InElection (run nodeID sch (loop_entry_with c anns evs)) \<le> 1
    \<and> (\<forall>s. tasks (step nodeID Ctl s) = tasks s \<or> tasks (step nodeID Ctl s) = tasks s @ [AtCheck])
    \<and> (\<forall>s i. \<not> dead s \<and> cancelled s \<and> i < length (tasks s) \<and> tasks s ! i = AtCheck \<longrightarrow>
          tasks (step nodeID (Task i) s) ! i = AtElseClear
          \<and> tasks (run nodeID [Task i, Task i] s) ! i = AtWgDone
          \<and> elections_started (run nodeID [Task i, Task i, Task i] s) = elections_started s
          \<and> (0 < wg s \<longrightarrow> tasks (run nodeID [Task i, Task i, Task i] s) ! i = Exited))"
proof -
  from assms have "exclusive nodeID (loop_entry_with c anns evs)"
    by (auto simp: exclusive_def loop_entry_with_def tasks_at_def list_all_iff split: option.splits)
  then have "exclusive nodeID (run nodeID sch (loop_entry_with c anns evs))"
    by (rule exclusive_run)
  then have one: "tasks_at AtSetActive (run nodeID sch (loop_entry_with c anns evs))
       + tasks_at InElection (run nodeID sch (loop_entry_with c anns evs)) \<le> 1"
    by (simp add: exclusive_def)
  have ctl: "tasks (step nodeID Ctl s) = tasks s \<or> tasks (step nodeID Ctl s) = tasks s @ [AtCheck]"
    for s
    using controller_step_tasks [of nodeID s] by (auto simp: step_eq)
  have leave: "tasks (step nodeID (Task i) s) ! i = AtElseClear
      \<and> tasks (run nodeID [Task i, Task i] s) ! i = AtWgDone
      \<and> elections_started (run nodeID [Task i, Task i, Task i] s) = elections_started s
      \<and> (0 < wg s \<longrightarrow> tasks (run nodeID [Task i, Task i, Task i] s) ! i = Exited)"
    if "\<not> dead s" and "cancelled s" and "i < length (tasks s)" and "tasks s ! i = AtCheck" for s i
    using that by (simp add: step_eq task_step_def dead_def)
  from one ctl leave show ?thesis by blast
qed

theorem one_election_at_a_time_witness:
  "tasks_at InElection (run ''node-1'' [Ctl, Ctl, Task 0, Task 0, Ctl, Ctl]
      (loop_entry None
        [Added (snapshot [address_on ''10.0.0.5'' ''node-1'']),
         Modified (snapshot [address_on ''10.0.0.6'' ''node-1''])])) = 1
   \<and> tasks_at AtSetActive (run ''node-1'' [Ctl, Ctl, Task 0, Task 0, Ctl, Ctl]
      (loop_entry None
        [Added (snapshot [address_on ''10.0.0.5'' ''node-1'']),
         Modified (snapshot [address_on ''10.0.0.6'' ''node-1''])])) = 0"
proof -
  have "\<forall>ev \<in> set [Added (snapshot [address_on ''10.0.0.5'' ''node-1'']),
         Modified (snapshot [address_on ''10.0.0.6'' ''node-1''])].
      \<forall>le. local_addresses ''node-1'' ev = Some le \<longrightarrow> '''' \<notin> set le"
    by (auto simp: run_defs)
  from one_election_at_a_time [where sch = "[Ctl, Ctl, Task 0, Task 0, Ctl, Ctl]" and c = 0
      and anns = None, OF this, THEN conjunct1]
  have "tasks_at AtSetActive (run ''node-1'' [Ctl, Ctl, Task 0, Task 0, Ctl, Ctl]
      (loop_entry None
        [Added (snapshot [address_on ''10.0.0.5'' ''node-1'']),
         Modified (snapshot [address_on ''10.0.0.6'' ''node-1''])]))
     + tasks_at InElection (run ''node-1'' [Ctl, Ctl, Task 0, Task 0, Ctl, Ctl]
      (loop_entry None
        [Added (snapshot [address_on ''10.0.0.5'' ''node-1'']),
         Modified (snapshot [address_on ''10.0.0.6'' ''node-1''])])) \<le> 1"
    by (simp add: loop_entry_def)
  moreover have "tasks_at InElection (run ''node-1'' [Ctl, Ctl, Task 0, Task 0, Ctl, Ctl]
      (loop_entry None
        [Added (snapshot [address_on ''10.0.0.5'' ''node-1'']),
         Modified (snapshot [address_on ''10.0.0.6'' ''node-1''])])) = 1"
    by (simp add: run_defs tasks_at_def)
  ultimately show ?thesis by simp
qed

subsection \<open>The annotation update\<close>

text \<open>
  Claim C7. Let the retry policy allow at least one attempt. Then
  \<^verbatim>\<open>updateServiceEndpointAnnotation\<close> makes at least one and at most \<open>steps\<close> attempts;
  what it returns is the outcome of its last attempt; every attempt before the last
  ended in a conflict, so that only a conflict is retried; when it returns a conflict
  all \<open>steps\<close> attempts were made. Each attempt is a read-modify-write on the store as
  the attempts before it left it: it fetches the service anew from that store; a
  failure of the fetch is the outcome of the attempt and nothing is written; otherwise
  it writes the fetched service with the key set, and the outcome is nil if the write
  succeeds and the failure of the write otherwise. The store at the end is the one the
  last attempt left, and when the result is nil a service that carries the annotation
  is stored.
\<close>

theorem update_retries_conflicts_only:
  assumes "0 < steps"
    and "updateServiceEndpointAnnotation steps endpoint service envs api = (r, api', tr)"
  shows "tr \<noteq> [] \<and> length tr \<le> steps \<and> r = last tr
    \<and> (\<forall>out \<in> set (butlast tr). out = Failed Conflict)
    \<and> (r = Failed Conflict \<longrightarrow> length tr = steps)
    \<and> api' = store_before (length tr) (update_attempt endpoint service) envs api
    \<and> (\<forall>k<length tr.
          (case Get (Namespace service) (Name service) (get_fault (next_env (drop k envs)))
                  (store_before k (update_attempt endpoint service) envs api) of
             Inl e \<Rightarrow>
               tr ! k = Failed e
               \<and> store_before (Suc k) (update_attempt endpoint service) envs api
                   = store_before k (update_attempt endpoint service) envs api
           | Inr cur \<Rightarrow>
               (case Update (Namespace cur) (with_active_endpoint endpoint cur)
                       (update_fault (next_env (drop k envs)))
                       (meddle (between (next_env (drop k envs))) (Namespace service, Name service)
                          (store_before k (update_attempt endpoint service) envs api)) of
                  (None, st) \<Rightarrow>
                    tr ! k = NoError
                    \<and> store_before (Suc k) (update_attempt endpoint service) envs api = st
                | (Some e, st) \<Rightarrow>
                    tr ! k = Failed e
                    \<and> store_before (Suc k) (update_attempt endpoint service) envs api = st)))
    \<and> (r = NoError \<longrightarrow>
         (\<exists>svc. api' (Namespace svc, Name svc) = Some svc
            \<and> ann_get (Annotations svc) ''kube-vip.io/active-endpoint'' = endpoint))"
proof -
  let ?fn = "update_attempt endpoint service"
  from assms(2) have rt: "RetryOnConflict steps ?fn envs api = (r, api', tr)"
    by (simp add: updateServiceEndpointAnnotation_def)
  note tr = retry_trace [OF assms(1) rt]
  note at = retry_attempts [OF rt]
  have each: "case Get (Namespace service) (Name service) (get_fault (next_env (drop k envs)))
                  (store_before k ?fn envs api) of
             Inl e \<Rightarrow>
               tr ! k = Failed e
               \<and> store_before (Suc k) ?fn envs api = store_before k ?fn envs api
           | Inr cur \<Rightarrow>
               (case Update (Namespace cur) (with_active_endpoint endpoint cur)
                       (update_fault (next_env (drop k envs)))
                       (meddle (between (next_env (drop k envs))) (Namespace service, Name service)
                          (store_before k ?fn envs api)) of
                  (None, st) \<Rightarrow> tr ! k = NoError \<and> store_before (Suc k) ?fn envs api = st
                | (Some e, st) \<Rightarrow> tr ! k = Failed e \<and> store_before (Suc k) ?fn envs api = st)"
    if "k < length tr" for k
  proof -
    from at that have "tr ! k = fst (?fn (next_env (drop k envs)) (store_before k ?fn envs api))"
      by simp
    moreover have "store_before (Suc k) ?fn envs api
        = snd (?fn (next_env (drop k envs)) (store_before k ?fn envs api))"
      by (rule store_before_Suc)
    ultimately show ?thesis
      by (simp add: update_attempt_eq split: sum.splits prod.splits option.splits)
  qed
  have ok: "\<exists>svc. api' (Namespace svc, Name svc) = Some svc
      \<and> ann_get (Annotations svc) ''kube-vip.io/active-endpoint'' = endpoint"
    if "r = NoError"
  proof -
    from rt that assms(1) obtain env api0 where "?fn env api0 = (NoError, api')"
      using retry_success by blast
    then show ?thesis by (rule update_attempt_annotated)
  qed
  from tr at each ok show ?thesis by simp
qed

text \<open>
  Scenario E: the stored service, at version 7, is rewritten by another client between
  the fetch and the write of the first attempt; the second attempt fetches version 8
  and succeeds, keeping what the other client wrote. Then two more runs: no service is
  stored, and the first attempt's fetch failure is returned at once; and another client
  rewrites the service during each of the five attempts, and the conflict of the fifth
  is returned.
\<close>

theorem update_retries_conflicts_only_witness:
  "updateServiceEndpointAnnotation 5 ''10.0.0.5''
      \<lparr>Name = ''web'', Namespace = ''default'', Annotations = None, ResourceVersion = 3\<rparr>
      [\<lparr>get_fault = None, between = Rewrite (Some [''owner'' \<mapsto> ''ops'']), update_fault = None\<rparr>]
      [(''default'', ''web'') \<mapsto>
         \<lparr>Name = ''web'', Namespace = ''default'', Annotations = None, ResourceVersion = 7\<rparr>]
    = (NoError,
       [(''default'', ''web'') \<mapsto>
         \<lparr>Name = ''web'', Namespace = ''default'',
           Annotations = Some [''owner'' \<mapsto> ''ops'', ''kube-vip.io/active-endpoint'' \<mapsto> ''10.0.0.5''],
           ResourceVersion = 9\<rparr>],
       [Failed Conflict, NoError])
   \<and> length [Failed Conflict, NoError] \<le> (5::nat)
   \<and> updateServiceEndpointAnnotation 5 ''10.0.0.5''
      \<lparr>Name = ''web'', Namespace = ''default'', Annotations = None, ResourceVersion = 3\<rparr>
      [] Map.empty
    = (Failed NotFound, Map.empty, [Failed NotFound])
   \<and> fst (updateServiceEndpointAnnotation 5 ''10.0.0.5''
      \<lparr>Name = ''web'', Namespace = ''default'', Annotations = None, ResourceVersion = 3\<rparr>
      (replicate 5 \<lparr>get_fault = None, between = Rewrite None, update_fault = None\<rparr>)
      [(''default'', ''web'') \<mapsto>
         \<lparr>Name = ''web'', Namespace = ''default'', Annotations = None, ResourceVersion = 7\<rparr>])
    = Failed Conflict
   \<and> snd (snd (updateServiceEndpointAnnotation 5 ''10.0.0.5''
      \<lparr>Name = ''web'', Namespace = ''default'', Annotations = None, ResourceVersion = 3\<rparr>
      (replicate 5 \<lparr>get_fault = None, between = Rewrite None, update_fault = None\<rparr>)
      [(''default'', ''web'') \<mapsto>
         \<lparr>Name = ''web'', Namespace = ''default'', Annotations = None, ResourceVersion = 7\<rparr>]))
    = [Failed Conflict, Failed Conflict, Failed Conflict, Failed Conflict, Failed Conflict]"
proof -
  have e: "updateServiceEndpointAnnotation 5 ''10.0.0.5''
      \<lparr>Name = ''web'', Namespace = ''default'', Annotations = None, ResourceVersion = 3\<rparr>
      [\<lparr>get_fault = None, between = Rewrite (Some [''owner'' \<mapsto> ''ops'']), update_fault = None\<rparr>]
      [(''default'', ''web'') \<mapsto>
         \<lparr>Name = ''web'', Namespace = ''default'', Annotations = None, ResourceVersion = 7\<rparr>]
    = (NoError,
       [(''default'', ''web'') \<mapsto>
         \<lparr>Name = ''web'', Namespace = ''default'',
           Annotations = Some [''owner'' \<mapsto> ''ops'', ''kube-vip.io/active-endpoint'' \<mapsto> ''10.0.0.5''],
           ResourceVersion = 9\<rparr>],
       [Failed Conflict, NoError])"
    by (simp add: updateServiceEndpointAnnotation_def eval_nat_numeral update_attempt_def
        next_env_def Get_def Update_def meddle_def ann_set_def calm_def)
  have e2: "updateServiceEndpointAnnotation 5 ''10.0.0.5''
      \<lparr>Name = ''web'', Namespace = ''default'', Annotations = None, ResourceVersion = 3\<rparr>
      [] Map.empty
    = (Failed NotFound, Map.empty, [Failed NotFound])"
    by (simp add: updateServiceEndpointAnnotation_def eval_nat_numeral update_attempt_def
        next_env_def Get_def Update_def meddle_def ann_set_def calm_def)
  have e3: "updateServiceEndpointAnnotation 5 ''10.0.0.5''
      \<lparr>Name = ''web'', Namespace = ''default'', Annotations = None, ResourceVersion = 3\<rparr>
      (replicate 5 \<lparr>get_fault = None, between = Rewrite None, update_fault = None\<rparr>)
      [(''default'', ''web'') \<mapsto>
         \<lparr>Name = ''web'', Namespace = ''default'', Annotations = None, ResourceVersion = 7\<rparr>]
    = (Failed Conflict,
       [(''default'', ''web'') \<mapsto>
         \<lparr>Name = ''web'', Namespace = ''default'', Annotations = None, ResourceVersion = 12\<rparr>],
       [Failed Conflict, Failed Conflict, Failed Conflict, Failed Conflict, Failed Conflict])"
    by (simp add: updateServiceEndpointAnnotation_def eval_nat_numeral update_attempt_def
        next_env_def Get_def Update_def meddle_def ann_set_def calm_def)
  have "0 < (5::nat)" by simp
  from update_retries_conflicts_only [OF this e, THEN conjunct2, THEN conjunct1] e e2 e3
  show ?thesis by simp
qed

text \<open>
  Claim C10. When the service as it is stored has no annotation map and nothing
  interferes, the attempt of lines 161--192 gives its copy an empty map, sets the key in
  it and writes it back: the attempt returns nil and the stored service carries exactly
  that one annotation, and so \<^verbatim>\<open>updateServiceEndpointAnnotation\<close> returns nil after
  this one attempt. And no attempt, on any store and under any interference, panics on
  the write of line 178.
\<close>

theorem nil_annotations_initialised:
  assumes "api (Namespace service, Name service) = Some svc"
    and "Namespace svc = Namespace service" and "Name svc = Name service"
    and "Annotations svc = None"
    and "get_fault env = None" and "between env = Quiet" and "update_fault env = None"
    and "0 < steps" and "next_env envs = env"
  shows "update_attempt endpoint service env api =
     (NoError,
      api((Namespace service, Name service) \<mapsto>
        svc\<lparr>Annotations := Some [''kube-vip.io/active-endpoint'' \<mapsto> endpoint],
            ResourceVersion := ResourceVersion svc + 1\<rparr>))
    \<and> updateServiceEndpointAnnotation steps endpoint service envs api =
     (NoError,
      api((Namespace service, Name service) \<mapsto>
        svc\<lparr>Annotations := Some [''kube-vip.io/active-endpoint'' \<mapsto> endpoint],
            ResourceVersion := ResourceVersion svc + 1\<rparr>),
      [NoError])
    \<and> (\<forall>env' api' p. fst (update_attempt endpoint service env' api') \<noteq> Crashed p)"
proof -
  have one: "update_attempt endpoint service env api =
     (NoError,
      api((Namespace service, Name service) \<mapsto>
        svc\<lparr>Annotations := Some [''kube-vip.io/active-endpoint'' \<mapsto> endpoint],
            ResourceVersion := ResourceVersion svc + 1\<rparr>))"
    using assms(1-7) by (simp add: update_attempt_def Get_def Update_def meddle_def ann_set_def)
  from assms(8) obtain n where "steps = Suc n" by (cases steps) auto
  with one assms(9) have "updateServiceEndpointAnnotation steps endpoint service envs api =
     (NoError,
      api((Namespace service, Name service) \<mapsto>
        svc\<lparr>Annotations := Some [''kube-vip.io/active-endpoint'' \<mapsto> endpoint],
            ResourceVersion := ResourceVersion svc + 1\<rparr>),
      [NoError])"
    by (simp add: updateServiceEndpointAnnotation_def)
  with one show ?thesis by (simp add: update_attempt_no_crash)
qed

theorem nil_annotations_initialised_witness:
  "updateServiceEndpointAnnotation 5 ''10.0.0.5''
      \<lparr>Name = ''web'', Namespace = ''default'', Annotations = None, ResourceVersion = 3\<rparr> []
      [(''default'', ''web'') \<mapsto>
         \<lparr>Name = ''web'', Namespace = ''default'', Annotations = None, ResourceVersion = 7\<rparr>]
    = (NoError,
       [(''default'', ''web'') \<mapsto>
         \<lparr>Name = ''web'', Namespace = ''default'',
           Annotations = Some [''kube-vip.io/active-endpoint'' \<mapsto> ''10.0.0.5''],
           ResourceVersion = 8\<rparr>],
       [NoError])"
  using nil_annotations_initialised [of
      "[(''default'', ''web'') \<mapsto>
         \<lparr>Name = ''web'', Namespace = ''default'', Annotations = None, ResourceVersion = 7\<rparr>]"
      "\<lparr>Name = ''web'', Namespace = ''default'', Annotations = None, ResourceVersion = 3\<rparr>"
      "\<lparr>Name = ''web'', Namespace = ''default'', Annotations = None, ResourceVersion = 7\<rparr>"
      calm 5 "[]" "''10.0.0.5''"]
  by (simp add: calm_def next_env_def)


end
